theory Spec2Isabelle
  imports Main
begin

section \<open>Text and character classes\<close>

text \<open>
  The scanner reads a file with \<open>node.read()\<close>, whose default encoding is latin-1, and
  matches it with \<open>str\<close> patterns: a text is a list of 8-bit characters, each one code
  point in 0..255. The classes below are those of Python 3's \<open>re\<close> module on that
  range: \<open>\s\<close>, \<open>\w\<close>, \<open>.\<close> (everything but a line feed, no \<open>re.S\<close>), a bracket set,
  and a literal compared without regard to case, as \<open>re.I\<close> asks. The literals of the
  three patterns are ASCII, and on this range only an ASCII letter folds to an ASCII
  letter, so \<open>lower\<close>, the code of a character with the upper-case ASCII letters
  moved onto the lower-case ones, decides the comparison.
\<close>

definition code :: "char \<Rightarrow> nat" where
  "code c = of_char c"

definition newline :: char where
  "newline = CHR 0x0A"

definition is_space :: "char \<Rightarrow> bool" where
  "is_space c = (let n = code c in
     (9 \<le> n \<and> n \<le> 13) \<or> (28 \<le> n \<and> n \<le> 32) \<or> n = 133 \<or> n = 160)"

definition is_word :: "char \<Rightarrow> bool" where
  "is_word c = (let n = code c in
     (48 \<le> n \<and> n \<le> 57) \<or> (65 \<le> n \<and> n \<le> 90) \<or> n = 95 \<or> (97 \<le> n \<and> n \<le> 122) \<or>
     n = 170 \<or> n = 178 \<or> n = 179 \<or> n = 181 \<or> n = 185 \<or> n = 186 \<or>
     (188 \<le> n \<and> n \<le> 190) \<or> (192 \<le> n \<and> n \<le> 214) \<or> (216 \<le> n \<and> n \<le> 246) \<or>
     (248 \<le> n \<and> n \<le> 255))"

definition lower :: "char \<Rightarrow> nat" where
  "lower c = (let n = code c in if 65 \<le> n \<and> n \<le> 90 then n + 32 else n)"

datatype cclass = Lit char | Space | Word | AnyChar | OneOf string

fun cmatch :: "cclass \<Rightarrow> char \<Rightarrow> bool" where
  "cmatch (Lit l) x = (lower x = lower l)"
| "cmatch Space x = is_space x"
| "cmatch Word x = is_word x"
| "cmatch AnyChar x = (x \<noteq> newline)"
| "cmatch (OneOf cs) x = (x \<in> set cs)"

section \<open>A backtracking matcher for the constructs the three patterns use\<close>

text \<open>
  The patterns of \<open>fc_scan.py\<close> use: literals, classes, concatenation, alternation
  \<open>a|b\<close>, the greedy \<open>?\<close>, \<open>*\<close> and \<open>+\<close>, the lazy \<open>+?\<close>, \<open>^\<close> under \<open>re.M\<close>, the
  lookaheads \<open>(?=...)\<close> and \<open>(?!...)\<close>, and one capturing group. Every \<open>*\<close>, \<open>+\<close> and
  \<open>+?\<close> in them repeats a single character class, so repetition is modelled on classes.

  A matcher state is (at the beginning of a line?, the text still to read, the capture).
  \<open>rmatch r st k\<close> tries the ways \<open>r\<close> can match at \<open>st\<close> in the priority order of a
  backtracking engine (left alternative first, greedy longest first, lazy shortest first)
  and hands each end state to the continuation \<open>k\<close>, until \<open>k\<close> succeeds.
\<close>

datatype rx =
    Eps
  | Ch cclass
  | Seq rx rx
  | Alt rx rx
  | Opt rx
  | Star cclass
  | Plus cclass
  | LazyPlus cclass
  | Bol
  | Ahead rx
  | NotAhead rx
  | Grp rx

type_synonym mstate = "bool \<times> string \<times> string option"

fun greedy :: "cclass \<Rightarrow> mstate \<Rightarrow> (mstate \<Rightarrow> mstate option) \<Rightarrow> mstate option" where
  "greedy c (b, [], g) k = k (b, [], g)"
| "greedy c (b, x # xs, g) k =
     (if cmatch c x
      then (case greedy c (x = newline, xs, g) k of
              Some r \<Rightarrow> Some r
            | None \<Rightarrow> k (b, x # xs, g))
      else k (b, x # xs, g))"

fun lazy :: "cclass \<Rightarrow> mstate \<Rightarrow> (mstate \<Rightarrow> mstate option) \<Rightarrow> mstate option" where
  "lazy c (b, [], g) k = k (b, [], g)"
| "lazy c (b, x # xs, g) k =
     (case k (b, x # xs, g) of
        Some r \<Rightarrow> Some r
      | None \<Rightarrow> if cmatch c x then lazy c (x = newline, xs, g) k else None)"

fun one :: "cclass \<Rightarrow> mstate \<Rightarrow> (mstate \<Rightarrow> mstate option) \<Rightarrow> mstate option" where
  "one c (b, [], g) k = None"
| "one c (b, x # xs, g) k = (if cmatch c x then k (x = newline, xs, g) else None)"

fun rmatch :: "rx \<Rightarrow> mstate \<Rightarrow> (mstate \<Rightarrow> mstate option) \<Rightarrow> mstate option" where
  "rmatch Eps st k = k st"
| "rmatch (Ch c) st k = one c st k"
| "rmatch (Seq r1 r2) st k = rmatch r1 st (\<lambda>st'. rmatch r2 st' k)"
| "rmatch (Alt r1 r2) st k =
     (case rmatch r1 st k of Some r \<Rightarrow> Some r | None \<Rightarrow> rmatch r2 st k)"
| "rmatch (Opt r) st k =
     (case rmatch r st k of Some r \<Rightarrow> Some r | None \<Rightarrow> k st)"
| "rmatch (Star c) st k = greedy c st k"
| "rmatch (Plus c) st k = one c st (\<lambda>st'. greedy c st' k)"
| "rmatch (LazyPlus c) st k = one c st (\<lambda>st'. lazy c st' k)"
| "rmatch Bol (b, s, g) k = (if b then k (b, s, g) else None)"
| "rmatch (Ahead r) st k = (case rmatch r st Some of Some _ \<Rightarrow> k st | None \<Rightarrow> None)"
| "rmatch (NotAhead r) st k = (case rmatch r st Some of Some _ \<Rightarrow> None | None \<Rightarrow> k st)"
| "rmatch (Grp r) (b, s, g) k =
     rmatch r (b, s, g) (\<lambda>(b', s', g'). k (b', s', Some (take (length s - length s') s)))"

text \<open>Concatenation of several parts, and a keyword spelled letter by letter.\<close>

definition seqs :: "rx list \<Rightarrow> rx" where
  "seqs rs = foldr Seq rs Eps"

definition lit :: "string \<Rightarrow> rx" where
  "lit s = seqs (map (\<lambda>c. Ch (Lit c)) s)"

section \<open>The three patterns\<close>

text \<open>
  \<^verbatim>\<open>INC_REGEX = (?:^|['">]\s*;)\s*(?:|#\s*)INCLUDE\s+(?:\w+_)?[<"'](.+?)(?=["'>])\<close>
\<close>

definition INC_REGEX :: rx where
  "INC_REGEX = seqs
     [Alt Bol (seqs [Ch (OneOf [CHR 0x27, CHR 0x22, CHR ''>'']), Star Space, Ch (Lit CHR '';'')]),
      Star Space,
      Alt Eps (Seq (Ch (Lit CHR ''#'')) (Star Space)),
      lit ''INCLUDE'',
      Plus Space,
      Opt (Seq (Plus Word) (Ch (Lit CHR ''_''))),
      Ch (OneOf [CHR ''<'', CHR 0x22, CHR 0x27]),
      Grp (LazyPlus AnyChar),
      Ahead (Ch (OneOf [CHR 0x22, CHR 0x27, CHR ''>'']))]"

text \<open>
  \<^verbatim>\<open>USE_REGEX = (?:^|;)\s*USE(?:\s+|(?:(?:\s*,\s*(?:NON_)?INTRINSIC)?\s*::))\s*(\w+)\<close>
\<close>

definition qualifier :: rx where
  "qualifier = Alt (Plus Space)
     (seqs [Opt (seqs [Star Space, Ch (Lit CHR '',''), Star Space, Opt (lit ''NON_''),
                       lit ''INTRINSIC'']),
            Star Space, lit ''::''])"

definition USE_REGEX :: rx where
  "USE_REGEX = seqs
     [Alt Bol (Ch (Lit CHR '';'')),
      Star Space,
      lit ''USE'',
      qualifier,
      Star Space,
      Grp (Plus Word)]"

text \<open>
  \<^verbatim>\<open>MOD_REGEX = (?:^|;)\s*MODULE(?!\s*PROCEDURE)(?:\s+|(?:(?:\s*,\s*(?:NON_)?INTRINSIC)?\s*::))\s*(\w+)\<close>
\<close>

definition MOD_REGEX :: rx where
  "MOD_REGEX = seqs
     [Alt Bol (Ch (Lit CHR '';'')),
      Star Space,
      lit ''MODULE'',
      NotAhead (Seq (Star Space) (lit ''PROCEDURE'')),
      qualifier,
      Star Space,
      Grp (Plus Word)]"

section \<open>findall\<close>

text \<open>
  \<open>pattern.findall(txt)\<close> of a pattern with one group: scan from the left, at each
  position take the first match in priority order, record its group, go on from where the
  match ended. None of the three patterns can match the empty text (each holds its
  keyword), so a match always moves forward; the model steps one character ahead where a
  match would not. A position where no match starts is skipped.
\<close>

function scan :: "rx \<Rightarrow> bool \<Rightarrow> string \<Rightarrow> string list" where
  "scan r b s =
     (case rmatch r (b, s, None) Some of
        Some (b', s', g) \<Rightarrow>
          (case g of Some c \<Rightarrow> c | None \<Rightarrow> []) #
          (if length s' < length s then scan r b' s'
           else (case s of [] \<Rightarrow> [] | x # xs \<Rightarrow> scan r (x = newline) xs))
      | None \<Rightarrow> (case s of [] \<Rightarrow> [] | x # xs \<Rightarrow> scan r (x = newline) xs))"
  by pat_completeness auto
termination
  by (relation "measure (\<lambda>(r, b, s). length s)") auto

declare scan.simps [simp del]

definition findall :: "rx \<Rightarrow> string \<Rightarrow> string list" where
  "findall r txt = scan r True txt"

definition re_inc :: "string \<Rightarrow> string list" where
  "re_inc = findall INC_REGEX"

definition re_use :: "string \<Rightarrow> string list" where
  "re_use = findall USE_REGEX"

definition re_mod :: "string \<Rightarrow> string list" where
  "re_mod = findall MOD_REGEX"

section \<open>The least-recently-used cache\<close>

text \<open>
  Modelled from the spec: \<open>Utils.lru_cache\<close>, the class behind both caches, whose code is
  not part of the scanned file. The spec gives it as a bounded map with a fixed capacity
  that evicts the least-recently-accessed entry first and never raises on eviction. The
  entries are kept most recent first: a hit moves its entry to the front, a new key goes
  to the front and, when the cache is full, the last entry is dropped. \<open>lru_get\<close> is
  \<open>cache[key]\<close> (\<open>None\<close> stands for \<open>KeyError\<close>), \<open>lru_set\<close> is \<open>cache[key] = val\<close>.
\<close>

record ('k, 'v) lru =
  maxlen :: nat
  items :: "('k \<times> 'v) list"

definition lru_cache :: "nat \<Rightarrow> ('k, 'v) lru" where
  "lru_cache n = \<lparr>maxlen = n, items = []\<rparr>"

definition touch :: "'k \<Rightarrow> 'v \<Rightarrow> ('k \<times> 'v) list \<Rightarrow> ('k \<times> 'v) list" where
  "touch k v xs = (k, v) # filter (\<lambda>e. fst e \<noteq> k) xs"

definition lru_get :: "('k, 'v) lru \<Rightarrow> 'k \<Rightarrow> ('v \<times> ('k, 'v) lru) option" where
  "lru_get c k =
     (case map_of (items c) k of
        None \<Rightarrow> None
      | Some v \<Rightarrow> Some (v, c\<lparr>items := touch k v (items c)\<rparr>))"

definition lru_set :: "('k, 'v) lru \<Rightarrow> 'k \<Rightarrow> 'v \<Rightarrow> ('k, 'v) lru" where
  "lru_set c k v =
     (if k \<in> fst ` set (items c) then c\<lparr>items := touch k v (items c)\<rparr>
      else if length (items c) < maxlen c then c\<lparr>items := (k, v) # items c\<rparr>
      else c\<lparr>items := (k, v) # butlast (items c)\<rparr>)"

section \<open>Files, the session and the parser\<close>

text \<open>
  A File Node is an opaque identity; directories are nodes too. The two collaborators
  are a fixed environment: \<open>read\<close> is \<open>node.read()\<close> (\<open>None\<close> when it raises an I/O
  error), \<open>find_resource\<close> is \<open>node.find_resource(filename)\<close> (\<open>None\<close> when nothing is
  found).
\<close>

type_synonym node = nat

datatype error = IOError

record world =
  read :: "node \<Rightarrow> string option"
  find_resource :: "node \<Rightarrow> string \<Rightarrow> node option"

record Deps =
  incs :: "string list"
  uses :: "string list"
  mods :: "string list"

definition DEPS_CACHE_SIZE :: nat where
  "DEPS_CACHE_SIZE = 100000"

definition FILE_CACHE_SIZE :: nat where
  "FILE_CACHE_SIZE = 100000"

text \<open>
  The session is \<open>node.ctx\<close>, the one context every node of a build belongs to: the two
  cache attributes, absent (\<open>None\<close>) until first used, and two logs that record each call
  of a collaborator, in order. The logs are not in the source; they make the number of
  reads and directory probes observable.
\<close>

record session =
  cache_fc_scan_deps :: "(node, Deps) lru option"
  cache_fc_scan_node :: "(node \<times> string, node option) lru option"
  reads :: "node list"
  lookups :: "(node \<times> string) list"

definition new_session :: session where
  "new_session = \<lparr>cache_fc_scan_deps = None, cache_fc_scan_node = None, reads = [], lookups = []\<rparr>"

text \<open>
  \<open>self.seen\<close> holds nodes and filename strings in one set; a node never equals a string.
  \<open>self.waiting\<close> is set by \<open>start\<close> before anything reads it; a new parser has it
  empty here. \<open>extracted\<close> and \<open>scheduled\<close> are logs, not in the source, of the nodes
  handed to \<open>find_deps\<close> and of the filenames handed to \<open>tryfind_header\<close>.
\<close>

datatype seen_key = SeenNode node | SeenName string

record parser =
  seen :: "seen_key set"
  nodes :: "node list"
  names :: "string list"
  incpaths :: "node list"
  waiting :: "node list"
  extracted :: "node list"
  scheduled :: "string list"

definition fortran_parser :: "node list \<Rightarrow> parser" where
  "fortran_parser dirs =
     \<lparr>seen = {}, nodes = [], names = [], incpaths = dirs, waiting = [],
      extracted = [], scheduled = []\<rparr>"

section \<open>find\_deps and cached\_find\_resource\<close>

text \<open>
  Both follow the source line by line: take the cache from the context, or make it; on a
  hit (\<open>cache[key]\<close> returns) answer from the cache; on \<open>KeyError\<close> call the
  collaborator, store what it gives and return it. \<open>node.read()\<close> may raise, and then
  nothing is stored; \<open>find_resource\<close> gives \<open>None\<close> for a file that is not there, and
  that \<open>None\<close> is stored like a node.
\<close>

definition get_deps :: "string \<Rightarrow> Deps" where
  "get_deps txt = \<lparr>incs = re_inc txt, uses = re_use txt, mods = re_mod txt\<rparr>"

definition find_deps :: "world \<Rightarrow> node \<Rightarrow> session \<Rightarrow> (error + Deps) \<times> session" where
  "find_deps w node ctx =
     (let cache = (case cache_fc_scan_deps ctx of
                     Some c \<Rightarrow> c
                   | None \<Rightarrow> lru_cache DEPS_CACHE_SIZE)
      in case lru_get cache node of
           Some (deps, cache') \<Rightarrow> (Inr deps, ctx\<lparr>cache_fc_scan_deps := Some cache'\<rparr>)
         | None \<Rightarrow>
             (case read w node of
                None \<Rightarrow>
                  (Inl IOError,
                   ctx\<lparr>cache_fc_scan_deps := Some cache, reads := reads ctx @ [node]\<rparr>)
              | Some txt \<Rightarrow>
                  (Inr (get_deps txt),
                   ctx\<lparr>cache_fc_scan_deps := Some (lru_set cache node (get_deps txt)),
                       reads := reads ctx @ [node]\<rparr>)))"

definition cached_find_resource ::
    "world \<Rightarrow> node \<Rightarrow> string \<Rightarrow> session \<Rightarrow> node option \<times> session" where
  "cached_find_resource w node filename ctx =
     (let cache = (case cache_fc_scan_node ctx of
                     Some c \<Rightarrow> c
                   | None \<Rightarrow> lru_cache FILE_CACHE_SIZE);
          key = (node, filename)
      in case lru_get cache key of
           Some (ret, cache') \<Rightarrow> (ret, ctx\<lparr>cache_fc_scan_node := Some cache'\<rparr>)
         | None \<Rightarrow>
             (let ret = find_resource w node filename
              in (ret, ctx\<lparr>cache_fc_scan_node := Some (lru_set cache key ret),
                           lookups := lookups ctx @ [key]\<rparr>)))"

section \<open>The traversal\<close>

text \<open>
  The loop of \<open>tryfind_header\<close> over \<open>self.incpaths\<close>, left at the first hit
  (\<open>if found: ... break\<close>; a node is true, \<open>None\<close> is false).
\<close>

fun probe_dirs :: "world \<Rightarrow> node list \<Rightarrow> string \<Rightarrow> session \<Rightarrow> node option \<times> session" where
  "probe_dirs w [] filename ctx = (None, ctx)"
| "probe_dirs w (n # ns) filename ctx =
     (case cached_find_resource w n filename ctx of
        (Some found, ctx') \<Rightarrow> (Some found, ctx')
      | (None, ctx') \<Rightarrow> probe_dirs w ns filename ctx')"

definition add_name :: "string \<Rightarrow> parser \<Rightarrow> parser" where
  "add_name name p = (if name \<in> set (names p) then p else p\<lparr>names := names p @ [name]\<rparr>)"

definition tryfind_header :: "world \<Rightarrow> string \<Rightarrow> parser \<times> session \<Rightarrow> parser \<times> session" where
  "tryfind_header w filename ps =
     (case ps of (p, ctx) \<Rightarrow>
        (let p0 = p\<lparr>scheduled := scheduled p @ [filename]\<rparr>
         in case probe_dirs w (incpaths p0) filename ctx of
              (Some found, ctx') \<Rightarrow>
                (p0\<lparr>nodes := nodes p0 @ [found], waiting := waiting p0 @ [found]\<rparr>, ctx')
            | (None, ctx') \<Rightarrow> (add_name filename p0, ctx')))"

fun iter_incs :: "world \<Rightarrow> string list \<Rightarrow> parser \<times> session \<Rightarrow> parser \<times> session" where
  "iter_incs w [] ps = ps"
| "iter_incs w (x # xs) (p, ctx) =
     (if SeenName x \<in> seen p then iter_incs w xs (p, ctx)
      else iter_incs w xs
             (tryfind_header w x (p\<lparr>seen := insert (SeenName x) (seen p)\<rparr>, ctx)))"

fun iter_uses :: "string list \<Rightarrow> parser \<Rightarrow> parser" where
  "iter_uses [] p = p"
| "iter_uses (x # xs) p = iter_uses xs (add_name (''USE@'' @ x) p)"

fun iter_mods :: "string list \<Rightarrow> parser \<Rightarrow> parser" where
  "iter_mods [] p = p"
| "iter_mods (x # xs) p = iter_mods xs (add_name (''MOD@'' @ x) p)"

definition iter :: "world \<Rightarrow> node \<Rightarrow> parser \<times> session \<Rightarrow> (error + unit) \<times> parser \<times> session" where
  "iter w node ps =
     (case ps of (p, ctx) \<Rightarrow>
        if SeenNode node \<in> seen p then (Inr (), p, ctx)
        else (case find_deps w node ctx of
                (Inl e, ctx') \<Rightarrow> (Inl e, p\<lparr>extracted := extracted p @ [node]\<rparr>, ctx')
              | (Inr deps, ctx') \<Rightarrow>
                  (case iter_incs w (incs deps)
                          (p\<lparr>extracted := extracted p @ [node],
                             seen := insert (SeenNode node) (seen p)\<rparr>, ctx') of
                     (p', ctx'') \<Rightarrow>
                       (Inr (), iter_mods (mods deps) (iter_uses (uses deps) p'), ctx''))))"

text \<open>
  \<open>start\<close>: the worklist loop. It may run forever on an endless chain of includes, so
  the loop returns an option: \<open>None\<close> is "does not return". An I/O error leaves the
  loop at once, with the state as the exception finds it.
\<close>

partial_function (option) start_loop ::
    "world \<Rightarrow> parser \<times> session \<Rightarrow> ((error + unit) \<times> parser \<times> session) option" where
  "start_loop w ps =
     (case waiting (fst ps) of
        [] \<Rightarrow> Some (Inr (), ps)
      | nd # rest \<Rightarrow>
          (case iter w nd ((fst ps)\<lparr>waiting := rest\<rparr>, snd ps) of
             (Inl e, ps') \<Rightarrow> Some (Inl e, ps')
           | (Inr u, ps') \<Rightarrow> start_loop w ps'))"

declare start_loop.simps [code]

definition start ::
    "world \<Rightarrow> node \<Rightarrow> parser \<times> session \<Rightarrow> ((error + unit) \<times> parser \<times> session) option" where
  "start w node ps = start_loop w ((fst ps)\<lparr>waiting := [node]\<rparr>, snd ps)"

section \<open>Notions used to state the properties\<close>

text \<open>
  How the traversal writes each kind of name into \<open>names\<close>: \<open>tryfind_header\<close> appends an
  unresolved include as the bare filename, \<open>iter\<close> appends \<open>"USE@%s" % x\<close> and
  \<open>"MOD@%s" % x\<close>.
\<close>

datatype kind = UnresolvedInclude | UsedModule | ProvidedModule

fun symbolic_name :: "kind \<Rightarrow> string \<Rightarrow> string" where
  "symbolic_name UnresolvedInclude x = x"
| "symbolic_name UsedModule x = ''USE@'' @ x"
| "symbolic_name ProvidedModule x = ''MOD@'' @ x"

text \<open>
  First match wins, in the spec's words: the node of the first search directory in which
  the directory lookup finds the filename; and the directories a resolution that stops at
  the first match has to look at.
\<close>

fun first_match :: "world \<Rightarrow> node list \<Rightarrow> string \<Rightarrow> node option" where
  "first_match w [] f = None"
| "first_match w (d # ds) f =
     (case find_resource w d f of Some n \<Rightarrow> Some n | None \<Rightarrow> first_match w ds f)"

fun probed_dirs :: "world \<Rightarrow> node list \<Rightarrow> string \<Rightarrow> node list" where
  "probed_dirs w [] f = []"
| "probed_dirs w (d # ds) f =
     d # (case find_resource w d f of Some n \<Rightarrow> [] | None \<Rightarrow> probed_dirs w ds f)"

text \<open>What the two caches hold for a key, if anything.\<close>

definition deps_cached :: "session \<Rightarrow> node \<Rightarrow> Deps option" where
  "deps_cached ctx n =
     (case cache_fc_scan_deps ctx of None \<Rightarrow> None | Some c \<Rightarrow> map_of (items c) n)"

definition node_cached :: "session \<Rightarrow> node \<times> string \<Rightarrow> node option option" where
  "node_cached ctx key =
     (case cache_fc_scan_node ctx of None \<Rightarrow> None | Some c \<Rightarrow> map_of (items c) key)"

text \<open>
  The negative result for \<open>k\<close> is in the resolution cache, and every entry more recent
  than it belongs to a key of \<open>S\<close>.
\<close>

definition ahead_of :: "session \<Rightarrow> node \<times> string \<Rightarrow> (node \<times> string) set \<Rightarrow> bool" where
  "ahead_of ctx k S =
     (\<exists>c pre post. cache_fc_scan_node ctx = Some c \<and> maxlen c = FILE_CACHE_SIZE \<and>
        distinct (map fst (items c)) \<and> items c = pre @ (k, None) # post \<and> fst ` set pre \<subseteq> S)"

text \<open>
  A session agrees with the files when each cached record is what extraction gives on the
  file as it reads now, and each cached resolution is what the directory lookup gives
  now. A new session does, and the scanner keeps it so.
\<close>

definition coherent :: "world \<Rightarrow> session \<Rightarrow> bool" where
  "coherent w ctx =
     ((case cache_fc_scan_deps ctx of
         None \<Rightarrow> True
       | Some c \<Rightarrow> list_all (\<lambda>e. map_option get_deps (read w (fst e)) = Some (snd e)) (items c)) \<and>
      (case cache_fc_scan_node ctx of
         None \<Rightarrow> True
       | Some c \<Rightarrow> list_all (\<lambda>e. find_resource w (fst (fst e)) (snd (fst e)) = snd e) (items c)))"

text \<open>
  The include graph: the filenames a file includes, and a set of nodes that holds every
  node an include of one of its members resolves to.
\<close>

definition includes_of :: "world \<Rightarrow> node \<Rightarrow> string list" where
  "includes_of w n = (case read w n of None \<Rightarrow> [] | Some txt \<Rightarrow> re_inc txt)"

definition closed_under :: "world \<Rightarrow> node list \<Rightarrow> node set \<Rightarrow> bool" where
  "closed_under w dirs N =
     (\<forall>n\<in>N. \<forall>f\<in>set (includes_of w n).
        case first_match w dirs f of None \<Rightarrow> True | Some m \<Rightarrow> m \<in> N)"

definition seen_nodes :: "parser \<Rightarrow> node set" where
  "seen_nodes p = {n. SeenNode n \<in> seen p}"

definition seen_names :: "parser \<Rightarrow> string set" where
  "seen_names p = {f. SeenName f \<in> seen p}"

definition all_includes :: "world \<Rightarrow> node set \<Rightarrow> string set" where
  "all_includes w N = (\<Union>n\<in>N. set (includes_of w n))"

text \<open>
  What holds of the logs each time the loop comes back to its head: no node was handed to
  \<open>find_deps\<close> twice, no filename to \<open>tryfind_header\<close> twice, and all of them are
  marked seen; and, in a session that agrees with the files, \<open>nodes\<close> holds what the
  scheduled filenames resolve to, in order.
\<close>

definition sched_inv :: "parser \<Rightarrow> bool" where
  "sched_inv p =
     (distinct (extracted p) \<and> set (extracted p) \<subseteq> seen_nodes p \<and>
      distinct (scheduled p) \<and> set (scheduled p) \<subseteq> seen_names p)"

definition res_inv :: "world \<Rightarrow> node list \<Rightarrow> parser \<times> session \<Rightarrow> bool" where
  "res_inv w dirs ps =
     (coherent w (snd ps) \<and> incpaths (fst ps) = dirs \<and>
      nodes (fst ps) = List.map_filter (first_match w dirs) (scheduled (fst ps)))"

text \<open>What is left to do: unseen nodes, unseen filenames (twice), and the worklist.\<close>

definition work_left :: "world \<Rightarrow> node set \<Rightarrow> parser \<Rightarrow> nat" where
  "work_left w N p =
     card (N - seen_nodes p) + 2 * card (all_includes w N - seen_names p) + length (waiting p)"

text \<open>
  Reading the matcher: the line-start flag after a run of characters, and whether a text
  starts with a keyword, case ignored.
\<close>

fun bol_after :: "bool \<Rightarrow> string \<Rightarrow> bool" where
  "bol_after b [] = b"
| "bol_after b (x # xs) = bol_after (x = newline) xs"

fun starts_ci :: "string \<Rightarrow> string \<Rightarrow> bool" where
  "starts_ci [] t = True"
| "starts_ci (k # ks) [] = False"
| "starts_ci (k # ks) (x # xs) = (lower x = lower k \<and> starts_ci ks xs)"

definition ident :: "string \<Rightarrow> bool" where
  "ident w = (w \<noteq> [] \<and> list_all is_word w)"

definition blank :: "string \<Rightarrow> bool" where
  "blank ws = list_all is_space ws"

definition filename_ok :: "string \<Rightarrow> bool" where
  "filename_ok f =
     (f \<noteq> [] \<and> list_all (\<lambda>c. c \<noteq> newline \<and> c \<notin> set [CHR 0x22, CHR 0x27, CHR ''>'']) f)"

text \<open>
  Source texts made of statements, each led by a separator: \<open>;ws kw w\<close> for every name
  \<open>w\<close>.
\<close>

fun sep_stmts :: "string \<Rightarrow> string \<Rightarrow> string list \<Rightarrow> string" where
  "sep_stmts ws kw [] = []"
| "sep_stmts ws kw (w # rest) = '';'' @ ws @ kw @ '' '' @ w @ sep_stmts ws kw rest"

text \<open>
  An include statement is an opening delimiter, a filename and a closing delimiter after
  \<open>include\<close>; the pattern takes any of \<open><\<close>, \<open>"\<close>, \<open>'\<close> to open and any of \<open>"\<close>, \<open>'\<close>, \<open>>\<close>
  to close. \<open>inc_stmts\<close> is a run of include statements, each led by whitespace, a
  separator and whitespace, so that each separator follows the closing delimiter of the
  statement before it.
\<close>

definition openers :: string where
  "openers = [CHR ''<'', CHR 0x22, CHR 0x27]"

definition closers :: string where
  "closers = [CHR 0x22, CHR 0x27, CHR ''>'']"

type_synonym inc_item = "char \<times> string \<times> char"

definition inc_ok :: "inc_item \<Rightarrow> bool" where
  "inc_ok i = (fst i \<in> set openers \<and> filename_ok (fst (snd i)) \<and> snd (snd i) \<in> set closers)"

definition inc_stmt :: "inc_item \<Rightarrow> string" where
  "inc_stmt i = ''include '' @ [fst i] @ fst (snd i) @ [snd (snd i)]"

fun inc_stmts :: "string \<Rightarrow> string \<Rightarrow> inc_item list \<Rightarrow> string" where
  "inc_stmts ws1 ws2 [] = []"
| "inc_stmts ws1 ws2 (i # rest) = ws1 @ '';'' @ ws2 @ inc_stmt i @ inc_stmts ws1 ws2 rest"

text \<open>
  Text that may stand before a bare separator on a line: no line break, no quote and no
  \<open>>\<close> in it, and not beginning with whitespace, \<open>#\<close> or the letter \<open>i\<close> (so that it
  does not itself begin an include directive).
\<close>

definition plain :: "string \<Rightarrow> bool" where
  "plain p =
     (list_all (\<lambda>c. c \<noteq> newline \<and> c \<notin> set closers) p \<and>
      (p = [] \<or> (\<not> is_space (hd p) \<and> lower (hd p) \<noteq> lower CHR ''#'' \<and>
                  lower (hd p) \<noteq> lower CHR ''i'')))"

text \<open>
  A run of calls of \<open>cached_find_resource\<close>, one per (directory, filename) pair, in the
  same session.
\<close>

fun probe_all :: "world \<Rightarrow> (node \<times> string) list \<Rightarrow> session \<Rightarrow> session" where
  "probe_all w [] ctx = ctx"
| "probe_all w (k # ks) ctx = probe_all w ks (snd (cached_find_resource w (fst k) (snd k) ctx))"

text \<open>
  The resolution cache as the scanner makes it: absent, or of capacity
  \<open>FILE_CACHE_SIZE\<close> with one entry per key.
\<close>

definition cache_wf :: "session \<Rightarrow> bool" where
  "cache_wf ctx =
     (case cache_fc_scan_node ctx of
        None \<Rightarrow> True
      | Some c \<Rightarrow> maxlen c = FILE_CACHE_SIZE \<and> distinct (map fst (items c)))"

section \<open>Example file systems\<close>

text \<open>A file that includes \<open>USE@m\<close>, found nowhere, and uses the module \<open>m\<close>.\<close>

definition collide_world :: world where
  "collide_world =
     \<lparr>read = map_of [(0, ''include <USE@m>'' @ [newline] @ ''use m'')],
      find_resource = curry (map_of [])\<rparr>"

text \<open>Two spellings of one header: both resolve to node 1 in directory 9.\<close>

definition alias_world :: world where
  "alias_world =
     \<lparr>read = map_of [(0, ''include <b.f>'' @ [newline] @ ''include <./b.f>''), (1, ''module m'')],
      find_resource = curry (map_of [((9, ''b.f''), 1), ((9, ''./b.f''), 1)])\<rparr>"

text \<open>A cycle: file 0 is \<open>a.f\<close> and includes \<open>b.f\<close>, file 1 is \<open>b.f\<close> and includes \<open>a.f\<close>.\<close>

definition cycle_world :: world where
  "cycle_world =
     \<lparr>read = map_of [(0, ''include <b.f>''), (1, ''include <a.f>'')],
      find_resource = curry (map_of [((9, ''a.f''), 0), ((9, ''b.f''), 1)])\<rparr>"

text \<open>A header present in both search directories 8 and 9, as nodes 3 and 4.\<close>

definition two_dirs_world :: world where
  "two_dirs_world =
     \<lparr>read = map_of [(0, ''include <h.inc>'')],
      find_resource = curry (map_of [((8, ''h.inc''), 3), ((9, ''h.inc''), 4)])\<rparr>"

text \<open>File 0 includes \<open>b.f\<close>, which resolves to node 1, a file that cannot be read.\<close>

definition unreadable_world :: world where
  "unreadable_world =
     \<lparr>read = map_of [(0, ''include <b.f>'' @ [newline] @ ''use m'')],
      find_resource = curry (map_of [((9, ''b.f''), 1)])\<rparr>"

text \<open>A directory with nothing in it, and \<open>n\<close> distinct filenames to look for.\<close>

definition empty_world :: world where
  "empty_world = \<lparr>read = map_of [], find_resource = curry (map_of [])\<rparr>"

definition many_names :: "nat \<Rightarrow> string list" where
  "many_names n = map (\<lambda>i. replicate i CHR ''a'') [1..<Suc n]"

text \<open>
  A session in which \<open>x.h\<close> was looked for in directory 0, and after it as many other
  filenames as the resolution cache holds.
\<close>

definition crowded_session :: session where
  "crowded_session =
     probe_all empty_world (map (Pair 0) (many_names FILE_CACHE_SIZE))
       (snd (cached_find_resource empty_world 0 ''x.h'' new_session))"

section \<open>Facts about the matcher\<close>

lemma is_space_lit:
  "is_space (Char b0 b1 b2 b3 b4 b5 b6 b7) =
     (let n = of_char (Char b0 b1 b2 b3 b4 b5 b6 b7) :: nat in
      (9 \<le> n \<and> n \<le> 13) \<or> (28 \<le> n \<and> n \<le> 32) \<or> n = 133 \<or> n = 160)"
  by (simp add: is_space_def code_def)

lemma lower_lit:
  "lower (Char b0 b1 b2 b3 b4 b5 b6 b7) =
     (let n = of_char (Char b0 b1 b2 b3 b4 b5 b6 b7) :: nat in
      if 65 \<le> n \<and> n \<le> 90 then n + 32 else n)"
  by (simp add: lower_def code_def)

lemma is_word_lit:
  "is_word (Char b0 b1 b2 b3 b4 b5 b6 b7) =
     (let n = of_char (Char b0 b1 b2 b3 b4 b5 b6 b7) :: nat in
     (48 \<le> n \<and> n \<le> 57) \<or> (65 \<le> n \<and> n \<le> 90) \<or> n = 95 \<or> (97 \<le> n \<and> n \<le> 122) \<or>
     n = 170 \<or> n = 178 \<or> n = 179 \<or> n = 181 \<or> n = 185 \<or> n = 186 \<or>
     (188 \<le> n \<and> n \<le> 190) \<or> (192 \<le> n \<and> n \<le> 214) \<or> (216 \<le> n \<and> n \<le> 246) \<or>
     (248 \<le> n \<and> n \<le> 255))"
  by (simp add: is_word_def code_def)

lemmas lit_eval = is_space_lit lower_lit is_word_lit newline_def Let_def

lemma cmatch_Space: "cmatch Space = is_space"
  by (rule ext) simp

lemma cmatch_Word: "cmatch Word = is_word"
  by (rule ext) simp

lemma word_not_space: "is_word c \<Longrightarrow> \<not> is_space c"
  by (auto simp: is_word_def is_space_def Let_def)

lemma word_not_newline: "is_word c \<Longrightarrow> c \<noteq> CHR 0x0A"
  by (auto simp: is_word_def code_def Let_def)

lemma word_lower: "is_word c \<Longrightarrow> lower c \<noteq> 58 \<and> lower c \<noteq> 44 \<and> lower c \<noteq> 59"
  by (auto simp: is_word_def lower_def Let_def)

lemma bol_after_word: "list_all is_word u \<Longrightarrow> bol_after b u = (if u = [] then b else False)"
  by (induction u arbitrary: b) (auto simp: newline_def word_not_newline)

lemma greedy_stop: "s = [] \<or> \<not> cmatch cl (hd s) \<Longrightarrow> greedy cl (b, s, g) k = k (b, s, g)"
  by (cases s) auto

lemma greedy_run:
  "list_all (cmatch cl) u \<Longrightarrow> r = [] \<or> \<not> cmatch cl (hd r) \<Longrightarrow> k (bol_after b u, r, g) \<noteq> None
   \<Longrightarrow> greedy cl (b, u @ r, g) k = k (bol_after b u, r, g)"
proof (induction u arbitrary: b)
  case Nil
  then show ?case by (simp add: greedy_stop)
next
  case (Cons x xs)
  from Cons.prems have "greedy cl (x = newline, xs @ r, g) k = k (bol_after (x = newline) xs, r, g)"
    by (intro Cons.IH) auto
  with Cons.prems show ?case by auto
qed

lemma greedy_all:
  "list_all (cmatch cl) u \<Longrightarrow> k (bol_after b u, [], g) \<noteq> None
   \<Longrightarrow> greedy cl (b, u, g) k = k (bol_after b u, [], g)"
  using greedy_run [of cl u "[]" k b g] by simp

lemma rmatch_lit:
  "rmatch (lit kw) (b, t, g) k =
     (if starts_ci kw t then k (bol_after b (take (length kw) t), drop (length kw) t, g) else None)"
proof (induction kw arbitrary: b t)
  case Nil
  then show ?case by (simp add: lit_def seqs_def)
next
  case (Cons c cs)
  have unf: "lit (c # cs) = Seq (Ch (Lit c)) (lit cs)"
    by (simp add: lit_def seqs_def)
  show ?case
  proof (cases t)
    case Nil
    then show ?thesis by (simp add: unf)
  next
    case (Cons x xs)
    then show ?thesis by (simp add: unf Cons.IH)
  qed
qed

lemma starts_ci_append:
  "T = [] \<or> lower (hd T) \<notin> lower ` set kw \<Longrightarrow> starts_ci kw (w @ T) = starts_ci kw w"
proof (induction kw w rule: starts_ci.induct)
  case (1 t)
  then show ?case by simp
next
  case (2 k ks)
  then show ?case by (cases T) auto
next
  case (3 k ks x xs)
  then show ?case by auto
qed

lemma lazy_run:
  assumes "list_all (\<lambda>c. cmatch cl c \<and> P c) u"
    and "\<And>b' c s. P c \<Longrightarrow> k (b', c # s, g) = None"
  shows "lazy cl (b, u @ r, g) k = lazy cl (bol_after b u, r, g) k"
  using assms(1)
proof (induction u arbitrary: b)
  case Nil
  then show ?case by simp
next
  case (Cons x xs)
  then have "k (b, x # xs @ r, g) = None" "cmatch cl x"
    using assms(2) by auto
  with Cons show ?case by simp
qed

lemma scan_end: "rmatch r (b, [], None) Some = None \<Longrightarrow> scan r b [] = []"
  by (subst scan.simps) simp

lemma scan_miss:
  "rmatch r (b, x # xs, None) Some = None \<Longrightarrow> scan r b (x # xs) = scan r (x = newline) xs"
  by (subst scan.simps) simp

lemma scan_hit:
  "rmatch r (b, s, None) Some = Some (b', s', Some c) \<Longrightarrow> length s' < length s
   \<Longrightarrow> scan r b s = c # scan r b' s'"
  by (subst scan.simps) simp

lemma lower_not_space: "lower a = n \<Longrightarrow> 97 \<le> n \<Longrightarrow> n \<le> 122 \<Longrightarrow> \<not> is_space a"
  by (auto simp: lower_def is_space_def Let_def split: if_splits)

section \<open>One directive at a time\<close>

lemma kw3:
  assumes "map lower kw = map lower [k1, k2, k3]"
  obtains a b c where "kw = [a, b, c]" "lower a = lower k1" "lower b = lower k2" "lower c = lower k3"
  using assms by (auto simp: map_eq_Cons_conv)

lemma use_match:
  fixes b :: bool
  assumes kw: "map lower kw = map lower ''use''" and w: "ident w" and ws: "blank ws"
    and T: "T = [] \<or> hd T = CHR '';''" and lead: "lead = [] \<and> b \<or> lead = '';''"
  shows "rmatch USE_REGEX (b, lead @ ws @ kw @ '' '' @ w @ T, None) Some = Some (False, T, Some w)"
proof -
  from w obtain x xs where w': "w = x # xs" and x: "is_word x" and xs: "list_all is_word xs"
    by (cases w) (auto simp: ident_def)
  from kw obtain a e c where kw': "kw = [a, e, c]"
    and l: "lower a = lower CHR ''u''" "lower e = lower CHR ''s''" "lower c = lower CHR ''e''"
    by (rule kw3)
  from l have la: "lower a = 117" "lower e = 115" "lower c = 101"
    by (simp_all add: lit_eval)
  have nsa: "\<not> is_space a"
    using la(1) by (rule lower_not_space) simp_all
  have ws': "list_all is_space ws"
    using ws by (simp add: blank_def)
  note facts = x xs word_not_space [OF x] word_lower [OF x] word_not_newline [OF x] la nsa ws'
  note rules = w' kw' USE_REGEX_def qualifier_def seqs_def rmatch_lit lit_eval cmatch_Word cmatch_Space
    greedy_all greedy_run bol_after_word
  show ?thesis
  proof (cases T)
    case Nil
    from lead show ?thesis
    proof
      assume "lead = [] \<and> b"
      then show ?thesis using facts Nil by (simp add: rules)
    next
      assume "lead = '';''"
      then show ?thesis using facts Nil by (simp add: rules)
    qed
  next
    case (Cons t ts)
    with T have t: "t = CHR '';''" by simp
    from lead show ?thesis
    proof
      assume "lead = [] \<and> b"
      then show ?thesis using facts Cons t by (simp add: rules)
    next
      assume "lead = '';''"
      then show ?thesis using facts Cons t by (simp add: rules)
    qed
  qed
qed

lemma mod_match:
  fixes b :: bool
  assumes w: "ident w" and np: "\<not> starts_ci ''PROCEDURE'' w" and ws: "blank ws"
    and T: "T = [] \<or> hd T = CHR '';''" and lead: "lead = [] \<and> b \<or> lead = '';''"
  shows "rmatch MOD_REGEX (b, lead @ ws @ ''module'' @ '' '' @ w @ T, None) Some = Some (False, T, Some w)"
proof -
  from T have "T = [] \<or> lower (hd T) \<notin> lower ` set ''PROCEDURE''"
    by (auto simp: lit_eval)
  then have "starts_ci ''PROCEDURE'' (w @ T) = starts_ci ''PROCEDURE'' w"
    by (rule starts_ci_append)
  with np have np': "\<not> starts_ci ''PROCEDURE'' (w @ T)"
    by simp
  from w obtain x xs where w': "w = x # xs" and x: "is_word x" and xs: "list_all is_word xs"
    by (cases w) (auto simp: ident_def)
  have ws': "list_all is_space ws"
    using ws by (simp add: blank_def)
  have la: "rmatch (lit ''PROCEDURE'') (b', w @ T, g) k = None" for b' g k
    by (simp only: rmatch_lit np' if_False)
  have lb: "rmatch (lit ''PROCEDURE'') (b', CHR '' '' # s, g) k = None" for b' s g k
    by (simp add: rmatch_lit lit_eval)
  note facts = x xs word_not_space [OF x] word_lower [OF x] word_not_newline [OF x] ws'
  note rules = MOD_REGEX_def qualifier_def seqs_def rmatch_lit [of "''MODULE''"] lb
    lit_eval cmatch_Word cmatch_Space greedy_all greedy_run bol_after_word
  show ?thesis
  proof (cases T)
    case Nil
    have la': "rmatch (lit ''PROCEDURE'') (b', x # xs, g) k = None" for b' g k
      using la [of b' g k] by (simp add: w' Nil)
    from lead show ?thesis
    proof
      assume "lead = [] \<and> b"
      then show ?thesis using facts by (simp add: w' Nil rules la')
    next
      assume "lead = '';''"
      then show ?thesis using facts by (simp add: w' Nil rules la')
    qed
  next
    case (Cons t ts)
    with T have t: "t = CHR '';''" by simp
    have la': "rmatch (lit ''PROCEDURE'') (b', x # xs @ CHR '';'' # ts, g) k = None" for b' g k
      using la [of b' g k] by (simp add: w' Cons t)
    from lead show ?thesis
    proof
      assume "lead = [] \<and> b"
      then show ?thesis using facts by (simp add: w' Cons t rules la')
    next
      assume "lead = '';''"
      then show ?thesis using facts by (simp add: w' Cons t rules la')
    qed
  qed
qed

lemma rmatch_seqs_append:
  "rmatch (seqs (xs @ ys)) st k = rmatch (seqs xs) st (\<lambda>st'. rmatch (seqs ys) st' k)"
  by (induction xs arbitrary: st k) (simp_all add: seqs_def)

lemma bol_after_no_nl:
  "list_all (\<lambda>c. c \<noteq> newline) u \<Longrightarrow> bol_after b u = (if u = [] then b else False)"
  by (induction u arbitrary: b) auto

lemma inc_tail:
  assumes f: "filename_ok f" and T: "T \<noteq> [] \<and> hd T \<in> set [CHR 0x22, CHR 0x27, CHR ''>'']"
  shows "rmatch (seqs [Grp (LazyPlus AnyChar), Ahead (Ch (OneOf [CHR 0x22, CHR 0x27, CHR ''>'']))])
           (b, f @ T, g) Some = Some (False, T, Some f)"
proof -
  let ?ds = "[CHR 0x22, CHR 0x27, CHR ''>'']"
  from f obtain x xs where f': "f = x # xs" and x: "x \<noteq> newline" "x \<notin> set ?ds"
    and xs: "list_all (\<lambda>c. c \<noteq> newline \<and> c \<notin> set ?ds) xs"
    by (cases f) (auto simp: filename_ok_def)
  from T obtain d T' where T': "T = d # T'" and d: "d \<in> set ?ds"
    by (cases T) auto
  define K :: "mstate \<Rightarrow> mstate option" where "K = (\<lambda>(b', s', g').
     (\<lambda>st'. rmatch (Seq (Ahead (Ch (OneOf ?ds))) Eps) st' Some)
       (b', s', Some (take (length (x # xs @ T) - length s') (x # xs @ T))))"
  have K_none: "K (b', c # s, g') = None" if "c \<notin> set ?ds" for b' c s g'
    using that by (simp add: K_def)
  have nb: "bol_after (x = newline) xs = False"
    using x xs by (subst bol_after_no_nl) (auto simp: list_all_iff)
  have run: "lazy AnyChar (x = newline, xs @ T, g) K = lazy AnyChar (bol_after (x = newline) xs, T, g) K"
    by (rule lazy_run [where P = "\<lambda>c. c \<notin> set ?ds"]) (use xs K_none in \<open>auto simp: list_all_iff\<close>)
  have "rmatch (seqs [Grp (LazyPlus AnyChar), Ahead (Ch (OneOf ?ds))]) (b, f @ T, g) Some
      = lazy AnyChar (x = newline, xs @ T, g) K"
    using x(1)
    by (simp only: seqs_def foldr.simps o_apply id_apply rmatch.simps f' append_Cons one.simps
        cmatch.simps K_def if_True not_False_eq_True)
  also have "\<dots> = lazy AnyChar (False, T, g) K"
    by (simp add: run nb)
  also have "\<dots> = Some (False, T, Some f)"
    using d by (auto simp: T' K_def f')
  finally show ?thesis .
qed

lemma inc_match:
  fixes b :: bool
  assumes f: "filename_ok f" and ws1: "blank ws1" and ws2: "blank ws2"
    and T: "T \<noteq> [] \<and> hd T \<in> set closers" and op: "opn \<in> set openers"
    and lead: "lead = [] \<and> b \<or> (\<exists>c \<in> set closers. lead = c # ws1 @ '';'')"
  shows "rmatch INC_REGEX (b, lead @ ws2 @ ''include '' @ [opn] @ f @ T, None) Some = Some (False, T, Some f)"
proof -
  define tail where
    "tail = seqs [Grp (LazyPlus AnyChar), Ahead (Ch (OneOf [CHR 0x22, CHR 0x27, CHR ''>'']))]"
  have split: "rmatch INC_REGEX st Some =
      rmatch (seqs [Alt Bol (seqs [Ch (OneOf [CHR 0x27, CHR 0x22, CHR ''>'']), Star Space, Ch (Lit CHR '';'')]),
                    Star Space,
                    Alt Eps (Seq (Ch (Lit CHR ''#'')) (Star Space)),
                    lit ''INCLUDE'',
                    Plus Space,
                    Opt (Seq (Plus Word) (Ch (Lit CHR ''_''))),
                    Ch (OneOf [CHR ''<'', CHR 0x22, CHR 0x27])]) st
        (\<lambda>st'. rmatch tail st' Some)" for st
    unfolding tail_def INC_REGEX_def
    by (subst rmatch_seqs_append [symmetric]) simp
  have tl: "rmatch tail (b', f @ T, g) Some = Some (False, T, Some f)" for b' g
    unfolding tail_def using f T [unfolded closers_def] by (rule inc_tail)
  have ws': "list_all is_space ws1" "list_all is_space ws2"
    using ws1 ws2 by (simp_all add: blank_def)
  note rules = split seqs_def rmatch_lit lit_eval cmatch_Word cmatch_Space greedy_run tl
  from op consider "opn = CHR ''<''" | "opn = CHR 0x22" | "opn = CHR 0x27"
    by (auto simp: openers_def)
  then have start: "rmatch INC_REGEX (True, ws2 @ ''include '' @ [opn] @ f @ T, None) Some
      = Some (False, T, Some f)"
    using ws' by cases (simp_all add: rules)
  from lead show ?thesis
  proof
    assume "lead = [] \<and> b"
    with start show ?thesis by simp
  next
    assume "\<exists>c \<in> set closers. lead = c # ws1 @ '';''"
    then obtain c where c: "c \<in> set closers" and l: "lead = c # ws1 @ '';''" by blast
    from c consider "c = CHR 0x22" | "c = CHR 0x27" | "c = CHR ''>''"
      by (auto simp: closers_def)
    then show ?thesis
    proof cases
      case 1
      from op consider "opn = CHR ''<''" | "opn = CHR 0x22" | "opn = CHR 0x27"
        by (auto simp: openers_def)
      then show ?thesis using ws' l 1 by cases (simp_all add: rules)
    next
      case 2
      from op consider "opn = CHR ''<''" | "opn = CHR 0x22" | "opn = CHR 0x27"
        by (auto simp: openers_def)
      then show ?thesis using ws' l 2 by cases (simp_all add: rules)
    next
      case 3
      from op consider "opn = CHR ''<''" | "opn = CHR 0x22" | "opn = CHR 0x27"
        by (auto simp: openers_def)
      then show ?thesis using ws' l 3 by cases (simp_all add: rules)
    qed
  qed
qed

section \<open>The three rules on whole texts\<close>

lemma sep_stmts_head: "sep_stmts ws kw ns = [] \<or> hd (sep_stmts ws kw ns) = CHR '';''"
  by (cases ns) simp_all

lemma use_end: "scan USE_REGEX b [] = []"
  by (rule scan_end) (simp add: USE_REGEX_def seqs_def rmatch_lit)

lemma mod_end: "scan MOD_REGEX b [] = []"
  by (rule scan_end) (simp add: MOD_REGEX_def seqs_def rmatch_lit)

lemma use_stmts:
  assumes "blank ws"
  shows "list_all ident ns \<Longrightarrow> scan USE_REGEX b (sep_stmts ws ''use'' ns) = ns"
proof (induction ns arbitrary: b)
  case Nil
  show ?case by (simp add: use_end)
next
  case (Cons w rest)
  let ?T = "sep_stmts ws ''use'' rest"
  from Cons.prems have w: "ident w" and rest: "list_all ident rest"
    by simp_all
  have "rmatch USE_REGEX (b, '';'' @ ws @ ''use'' @ '' '' @ w @ ?T, None) Some = Some (False, ?T, Some w)"
    using _ w assms sep_stmts_head by (rule use_match) simp_all
  then have "scan USE_REGEX b ('';'' @ ws @ ''use'' @ '' '' @ w @ ?T) = w # scan USE_REGEX False ?T"
    by (rule scan_hit) simp
  with Cons.IH [OF rest] show ?case by simp
qed

lemma mod_stmts:
  assumes "blank ws"
  shows "list_all ident ns \<Longrightarrow> list_all (\<lambda>w. \<not> starts_ci ''PROCEDURE'' w) ns
    \<Longrightarrow> scan MOD_REGEX b (sep_stmts ws ''module'' ns) = ns"
proof (induction ns arbitrary: b)
  case Nil
  show ?case by (simp add: mod_end)
next
  case (Cons w rest)
  let ?T = "sep_stmts ws ''module'' rest"
  from Cons.prems have w: "ident w" "\<not> starts_ci ''PROCEDURE'' w" and rest: "list_all ident rest"
    "list_all (\<lambda>w. \<not> starts_ci ''PROCEDURE'' w) rest"
    by simp_all
  have "rmatch MOD_REGEX (b, '';'' @ ws @ ''module'' @ '' '' @ w @ ?T, None) Some = Some (False, ?T, Some w)"
    using w assms sep_stmts_head by (rule mod_match) simp
  then have "scan MOD_REGEX b ('';'' @ ws @ ''module'' @ '' '' @ w @ ?T) = w # scan MOD_REGEX False ?T"
    by (rule scan_hit) simp
  with Cons.IH [OF rest] show ?case by simp
qed

lemma inc_end: "c \<in> set closers \<Longrightarrow> scan INC_REGEX b [c] = []"
  by (auto simp: closers_def scan.simps INC_REGEX_def seqs_def rmatch_lit lit_eval)

lemma inc_stmts_scan:
  assumes "blank ws1" and "blank ws2"
  shows "list_all inc_ok js \<Longrightarrow> c \<in> set closers
    \<Longrightarrow> scan INC_REGEX b (c # inc_stmts ws1 ws2 js) = map (fst \<circ> snd) js"
proof (induction js arbitrary: b c)
  case Nil
  then show ?case by (simp add: inc_end)
next
  case (Cons i rest)
  obtain opn f c' where i: "i = (opn, f, c')" by (cases i)
  let ?T = "c' # inc_stmts ws1 ws2 rest"
  from Cons.prems have oki: "inc_ok i" and rest: "list_all inc_ok rest"
    by simp_all
  from oki have ok: "opn \<in> set openers" "filename_ok f" "c' \<in> set closers"
    by (simp_all add: inc_ok_def i)
  have "rmatch INC_REGEX (b, (c # ws1 @ '';'') @ ws2 @ ''include '' @ [opn] @ f @ ?T, None) Some
      = Some (False, ?T, Some f)"
    using ok(2) assms _ ok(1) by (rule inc_match) (use ok(3) Cons.prems(2) in auto)
  then have "scan INC_REGEX b ((c # ws1 @ '';'') @ ws2 @ ''include '' @ [opn] @ f @ ?T)
      = f # scan INC_REGEX False ?T"
    by (rule scan_hit) simp
  with Cons.IH [OF rest ok(3)] show ?case
    by (simp add: i inc_stmt_def)
qed

lemma inc_first:
  assumes "blank ws1" and "blank ws2" and "list_all inc_ok (i # js)"
  shows "re_inc (inc_stmt i @ inc_stmts ws1 ws2 js) = map (fst \<circ> snd) (i # js)"
proof -
  obtain opn f c where i: "i = (opn, f, c)" by (cases i)
  let ?T = "c # inc_stmts ws1 ws2 js"
  from assms(3) have oki: "inc_ok i" and rest: "list_all inc_ok js"
    by simp_all
  from oki have ok: "opn \<in> set openers" "filename_ok f" "c \<in> set closers"
    by (simp_all add: inc_ok_def i)
  have "blank []" by (simp add: blank_def)
  with ok(2) assms(1)
  have "rmatch INC_REGEX (True, [] @ [] @ ''include '' @ [opn] @ f @ ?T, None) Some = Some (False, ?T, Some f)"
    using _ ok(1) by (rule inc_match) (use ok(3) in auto)
  then have "scan INC_REGEX True (''include '' @ [opn] @ f @ ?T) = f # scan INC_REGEX False ?T"
    by (intro scan_hit) simp_all
  with inc_stmts_scan [OF assms(1,2) rest ok(3)] show ?thesis
    by (simp add: re_inc_def findall_def i inc_stmt_def)
qed

text \<open>Where no match of the include rule starts.\<close>

lemma lower_semi: "lower x = lower CHR '';'' \<Longrightarrow> x = CHR '';''"
proof -
  assume "lower x = lower CHR '';''"
  then have "of_char x = (of_char CHR '';'' :: nat)"
    by (auto simp: lower_def code_def Let_def split: if_splits)
  then show ?thesis by (rule of_char_eqI)
qed

lemma inc_no_start: "\<not> b \<Longrightarrow> x \<notin> set closers \<Longrightarrow> rmatch INC_REGEX (b, x # s, g) k = None"
  by (simp add: INC_REGEX_def seqs_def closers_def)

lemma inc_no_semi: "rmatch INC_REGEX (b, CHR '';'' # s, g) k = None"
  by (simp add: INC_REGEX_def seqs_def rmatch_lit lit_eval)

lemma inc_no_plain:
  assumes "\<not> is_space x" and "lower x \<noteq> lower CHR ''#''" and "lower x \<noteq> lower CHR ''i''"
    and "x \<notin> set closers"
  shows "rmatch INC_REGEX (b, x # s, g) k = None"
  using assms by (simp add: INC_REGEX_def seqs_def rmatch_lit lit_eval closers_def)

lemma scan_skip:
  "list_all (\<lambda>c. c \<noteq> newline \<and> c \<notin> set closers) u \<Longrightarrow> \<not> b
   \<Longrightarrow> scan INC_REGEX b (u @ T) = scan INC_REGEX False T"
proof (induction u arbitrary: b)
  case Nil
  then show ?case by simp
next
  case (Cons x xs)
  then have "rmatch INC_REGEX (b, x # xs @ T, None) Some = None"
    by (intro inc_no_start) simp_all
  then have "scan INC_REGEX b (x # xs @ T) = scan INC_REGEX (x = newline) (xs @ T)"
    by (rule scan_miss)
  with Cons show ?case by simp
qed

lemma greedy_no_semi:
  "CHR '';'' \<notin> set s \<Longrightarrow> greedy cl (b, s, g) (\<lambda>st. one (Lit CHR '';'') st K) = None"
proof (induction s arbitrary: b)
  case Nil
  then show ?case by simp
next
  case (Cons x xs)
  then have "lower x \<noteq> lower CHR '';''"
    using lower_semi [of x] by auto
  with Cons show ?case by simp
qed

lemma space_not_closer: "is_space c \<Longrightarrow> c \<notin> set closers"
  by (auto simp: closers_def lit_eval)

lemma closer_not_semi: "c \<in> set closers \<Longrightarrow> c \<noteq> CHR '';'' \<and> c \<noteq> newline"
  by (auto simp: closers_def newline_def)

lemma at_opener:
  assumes "opn \<in> set openers" and "c \<in> set closers" and "CHR '';'' \<notin> set f"
  shows "rmatch INC_REGEX (False, opn # f @ [c], None) Some = None"
proof -
  from assms(2,3) closer_not_semi [OF assms(2)] have ns: "CHR '';'' \<notin> set (f @ [c])"
    by auto
  note g = greedy_no_semi [OF ns]
  from assms(1) consider "opn = CHR ''<''" | "opn = CHR 0x22" | "opn = CHR 0x27"
    by (auto simp: openers_def)
  then show ?thesis
    by cases (simp_all add: INC_REGEX_def seqs_def g)
qed

lemma inc_bare:
  assumes p: "plain p" and ws: "blank ws" "newline \<notin> set ws" and i: "inc_ok i"
    and semi: "CHR '';'' \<notin> set (fst (snd i))"
  shows "re_inc (p @ '';'' @ ws @ inc_stmt i) = []"
proof -
  obtain opn f c where i': "i = (opn, f, c)" by (cases i)
  from i semi have ok: "opn \<in> set openers" "filename_ok f" "c \<in> set closers" "CHR '';'' \<notin> set f"
    by (simp_all add: inc_ok_def i')
  let ?R = "INC_REGEX"
  have on: "opn \<noteq> newline"
    using ok(1) by (auto simp: openers_def newline_def)
  have f_skip: "list_all (\<lambda>c. c \<noteq> newline \<and> c \<notin> set closers) f"
    using ok(2) by (simp add: filename_ok_def closers_def)
  have ws_skip: "list_all (\<lambda>c. c \<noteq> newline \<and> c \<notin> set closers) ws"
    using ws by (auto simp: blank_def list_all_iff space_not_closer)
  have kw_skip: "list_all (\<lambda>c. c \<noteq> newline \<and> c \<notin> set closers) ''include ''"
    by (simp add: closers_def newline_def)
  have "scan ?R False (opn # f @ [c]) = scan ?R (opn = newline) (f @ [c])"
    using at_opener [OF ok(1,3,4)] by (rule scan_miss)
  also have "\<dots> = scan ?R False [c]"
    using on scan_skip [OF f_skip, of False "[c]"] by simp
  also have "\<dots> = []"
    using ok(3) by (rule inc_end)
  finally have d: "scan ?R False (opn # f @ [c]) = []" .
  have "scan ?R False (''include '' @ opn # f @ [c]) = scan ?R False (opn # f @ [c])"
    using kw_skip by (rule scan_skip) simp
  with d have c: "scan ?R False (inc_stmt i) = []"
    by (simp add: inc_stmt_def i')
  have "scan ?R False (ws @ inc_stmt i) = scan ?R False (inc_stmt i)"
    using ws_skip by (rule scan_skip) simp
  with c have b: "scan ?R False (ws @ inc_stmt i) = []" by simp
  have "scan ?R b' (CHR '';'' # ws @ inc_stmt i) = scan ?R (CHR '';'' = newline) (ws @ inc_stmt i)" for b'
    using inc_no_semi by (rule scan_miss)
  with b have a: "scan ?R b' (CHR '';'' # ws @ inc_stmt i) = []" for b'
    by (simp add: newline_def)
  have "scan ?R True (p @ CHR '';'' # ws @ inc_stmt i) = []"
  proof (cases p)
    case Nil
    with a show ?thesis by simp
  next
    case (Cons x xs)
    with p have x: "\<not> is_space x" "lower x \<noteq> lower CHR ''#''" "lower x \<noteq> lower CHR ''i''"
      "x \<noteq> newline" "x \<notin> set closers"
      and xs: "list_all (\<lambda>c. c \<noteq> newline \<and> c \<notin> set closers) xs"
      by (simp_all add: plain_def)
    have "scan ?R True (x # xs @ CHR '';'' # ws @ inc_stmt i) =
        scan ?R (x = newline) (xs @ CHR '';'' # ws @ inc_stmt i)"
      using inc_no_plain [OF x(1,2,3,5)] by (rule scan_miss)
    also have "\<dots> = scan ?R False (CHR '';'' # ws @ inc_stmt i)"
      using x(4) scan_skip [OF xs, of False] by simp
    finally show ?thesis using a Cons by simp
  qed
  then show ?thesis
    by (simp add: re_inc_def findall_def)
qed

text \<open>
  Claim C3, as amended. The use rule and the module-provides rule accept a statement led
  by a separator \<open>;\<close> and optional whitespace, for every identifier (for the module rule:
  every identifier that does not start with the letters of "procedure"). The include
  rule accepts a statement led by whitespace, a separator and whitespace when the
  statement before it is an include, so that the separator follows a closing \<open>'\<close>, \<open>"\<close> or
  \<open>>\<close>; this holds for each opening and each closing delimiter of either statement. A text
  of any number of such statements yields every name, in order. After text that holds no
  quote, no \<open>>\<close> and no line break (and does not begin with whitespace, \<open>#\<close> or \<open>i\<close>), a
  separator and whitespace without a line break do not let an include directive match,
  whatever its delimiters, if its filename holds no \<open>;\<close>.
\<close>

theorem separators_and_repeats:
  assumes "blank ws" and "blank ws'" and "list_all ident ns" and "list_all inc_ok (i # js)"
  shows "re_use (sep_stmts ws ''use'' ns) = ns \<and>
         (list_all (\<lambda>w. \<not> starts_ci ''PROCEDURE'' w) ns \<longrightarrow>
            re_mod (sep_stmts ws ''module'' ns) = ns) \<and>
         re_inc (inc_stmt i @ inc_stmts ws ws' js) = map (fst \<circ> snd) (i # js) \<and>
         (\<forall>p. plain p \<and> newline \<notin> set ws \<and> CHR '';'' \<notin> set (fst (snd i)) \<longrightarrow>
            re_inc (p @ '';'' @ ws @ inc_stmt i) = [])"
proof (intro conjI impI allI)
  show "re_use (sep_stmts ws ''use'' ns) = ns"
    using assms(1,3) by (simp add: re_use_def findall_def use_stmts)
  show "re_mod (sep_stmts ws ''module'' ns) = ns"
    if "list_all (\<lambda>w. \<not> starts_ci ''PROCEDURE'' w) ns"
    using assms(1,3) that by (simp add: re_mod_def findall_def mod_stmts)
  show "re_inc (inc_stmt i @ inc_stmts ws ws' js) = map (fst \<circ> snd) (i # js)"
    using assms(1,2,4) by (rule inc_first)
  show "re_inc (p @ '';'' @ ws @ inc_stmt i) = []"
    if "plain p \<and> newline \<notin> set ws \<and> CHR '';'' \<notin> set (fst (snd i))" for p
    using that assms(1,4) by (intro inc_bare) simp_all
qed

text \<open>
  Claim C5. Whatever the case of the letters of the keyword \<open>use\<close>, the statement
  \<open>use w\<close> yields exactly one used-module capture, and it is the identifier \<open>w\<close> as
  written: no case folding, no trimming.
\<close>

theorem use_keyword_any_case:
  assumes "map lower kw = map lower ''use''" and "ident w"
  shows "re_use (kw @ '' '' @ w) = [w]"
proof -
  have "blank []" by (simp add: blank_def)
  with assms have "rmatch USE_REGEX (True, [] @ [] @ kw @ '' '' @ w @ [], None) Some = Some (False, [], Some w)"
    by (rule use_match) simp_all
  then have "scan USE_REGEX True (kw @ '' '' @ w) = w # scan USE_REGEX False []"
    by (intro scan_hit) simp_all
  then show ?thesis
    by (simp add: re_use_def findall_def use_end)
qed

lemmas eval_rx = re_use_def re_mod_def re_inc_def findall_def scan.simps USE_REGEX_def MOD_REGEX_def INC_REGEX_def
  qualifier_def seqs_def lit_def lit_eval

theorem use_keyword_any_case_witness:
  "re_use ''use Foo_1'' = [''Foo_1''] \<and> re_use ''USE Foo_1'' = [''Foo_1''] \<and> re_use ''Use Foo_1'' = [''Foo_1'']"
  using use_keyword_any_case [of "''use''" "''Foo_1''"] use_keyword_any_case [of "''USE''" "''Foo_1''"]
    use_keyword_any_case [of "''Use''" "''Foo_1''"]
  by (simp add: ident_def lit_eval)

text \<open>
  Claim C3 as stated fails for the include rule: after a statement that does not end in
  a quote or a bracket, a separator does not let the include directive match.
\<close>

theorem bare_separator_include_counterexample:
  "re_inc ''a = 1; include <f.h>'' = []"
  by (simp add: eval_rx)

text \<open>
  Claim C4. \<open>module procedure bar\<close> yields no provided-module name and \<open>module bar\<close>
  yields \<open>bar\<close>; but the lookahead has no word boundary, so the statement
  \<open>module procedures\<close>, which provides the module \<open>procedures\<close>, yields nothing.
\<close>

theorem module_name_starting_with_procedure:
  "re_mod ''module procedures'' = [] \<and> re_mod ''module procedure bar'' = [] \<and> re_mod ''module bar'' = [''bar'']"
  by (simp add: eval_rx)

theorem separators_and_repeats_witness:
  "blank '' '' \<and> list_all ident [''a'', ''b2''] \<and>
   list_all inc_ok [(CHR ''<'', ''x.h'', CHR ''>''), (CHR 0x22, ''y.h'', CHR 0x22),
                    (CHR 0x27, ''z/w.inc'', CHR 0x27)] \<and>
   plain ''x = 2'' \<and>
   re_use ''; use a; use b2'' = [''a'', ''b2''] \<and>
   re_mod ''; module a; module b2'' = [''a'', ''b2''] \<and>
   re_inc (''include <x.h> ; include '' @ [CHR 0x22] @ ''y.h'' @ [CHR 0x22] @ '' ; include ''
           @ [CHR 0x27] @ ''z/w.inc'' @ [CHR 0x27]) = [''x.h'', ''y.h'', ''z/w.inc''] \<and>
   re_inc ''x = 2; include <x.h>'' = []"
proof -
  let ?i = "(CHR ''<'', ''x.h'', CHR ''>'')"
  let ?js = "[(CHR 0x22, ''y.h'', CHR 0x22), (CHR 0x27, ''z/w.inc'', CHR 0x27)]"
  have h: "blank '' ''" "list_all ident [''a'', ''b2'']" "list_all inc_ok (?i # ?js)" "plain ''x = 2''"
    by (simp_all add: blank_def ident_def filename_ok_def inc_ok_def plain_def openers_def closers_def
        lit_eval)
  note t = separators_and_repeats [OF h(1) h(1) h(2) h(3)]
  note t [THEN conjunct2, THEN conjunct2, THEN conjunct2]
  then have "plain ''x = 2'' \<and> newline \<notin> set '' '' \<and> CHR '';'' \<notin> set (fst (snd ?i)) \<longrightarrow>
      re_inc (''x = 2'' @ '';'' @ '' '' @ inc_stmt ?i) = []"
    by (rule spec)
  with h(4) have n: "re_inc ''x = 2; include <x.h>'' = []"
    by (simp add: inc_stmt_def newline_def)
  note u = t [THEN conjunct1]
  have np: "list_all (\<lambda>w. \<not> starts_ci ''PROCEDURE'' w) [''a'', ''b2'']"
    by (simp add: lit_eval)
  note m = t [THEN conjunct2, THEN conjunct1, THEN mp, OF np]
  note c = t [THEN conjunct2, THEN conjunct2, THEN conjunct1]
  have u': "re_use ''; use a; use b2'' = [''a'', ''b2'']"
    using u by simp
  have m': "re_mod ''; module a; module b2'' = [''a'', ''b2'']"
    using m by simp
  have c': "re_inc (''include <x.h> ; include '' @ [CHR 0x22] @ ''y.h'' @ [CHR 0x22] @ '' ; include ''
           @ [CHR 0x27] @ ''z/w.inc'' @ [CHR 0x27]) = [''x.h'', ''y.h'', ''z/w.inc'']"
    using c by (simp add: inc_stmt_def)
  from h(1,2,3,4) u' m' c' n show ?thesis
    by (intro conjI)
qed

section \<open>The caches\<close>

lemma map_of_touch: "map_of (touch k v xs) k' = (if k' = k then Some v else map_of xs k')"
  by (induction xs) (auto simp: touch_def)

lemma lru_get_Some:
  "lru_get c k = Some (v, c') \<longleftrightarrow> map_of (items c) k = Some v \<and> c' = c\<lparr>items := touch k v (items c)\<rparr>"
  by (auto simp: lru_get_def split: option.splits)

lemma map_of_lru_set: "map_of (items (lru_set c k v)) k = Some v"
  by (simp add: lru_set_def touch_def)

lemma find_deps_hit:
  assumes "deps_cached ctx n = Some d"
  shows "fst (find_deps w n ctx) = Inr d" "reads (snd (find_deps w n ctx)) = reads ctx"
    "deps_cached (snd (find_deps w n ctx)) n = Some d"
  using assms
  by (auto simp: find_deps_def deps_cached_def lru_get_def map_of_touch Let_def split: option.splits)

lemma find_deps_stores:
  assumes "find_deps w n ctx = (Inr d, ctx1)"
  shows "deps_cached ctx1 n = Some d"
  using assms
  by (auto simp: find_deps_def deps_cached_def lru_get_def map_of_touch map_of_lru_set Let_def
      split: option.splits)

lemma find_deps_reads:
  assumes "find_deps w n ctx = (r, ctx1)"
  shows "reads ctx1 = (if deps_cached ctx n = None then reads ctx @ [n] else reads ctx)"
  using assms
  by (auto simp: find_deps_def deps_cached_def lru_get_def lru_cache_def Let_def split: option.splits)

text \<open>
  Claim C8. When \<open>find_deps\<close> has returned a record for a file, the next call for that file
  returns the same record and reads nothing, and the record is still cached after it; the
  first call read the file once if the record was not cached, and not at all if it was.
\<close>

theorem find_deps_memoized:
  assumes "find_deps w n ctx = (Inr d, ctx1)"
  shows "fst (find_deps w n ctx1) = Inr d \<and>
         reads (snd (find_deps w n ctx1)) = reads ctx1 \<and>
         deps_cached (snd (find_deps w n ctx1)) n = Some d \<and>
         reads ctx1 = (if deps_cached ctx n = None then reads ctx @ [n] else reads ctx)"
  using find_deps_hit [OF find_deps_stores [OF assms]] find_deps_reads [OF assms] by simp

lemmas eval_cache = find_deps_def cached_find_resource_def lru_get_def lru_set_def lru_cache_def touch_def
  DEPS_CACHE_SIZE_def FILE_CACHE_SIZE_def new_session_def get_deps_def deps_cached_def node_cached_def Let_def

theorem find_deps_memoized_witness:
  "fst (find_deps cycle_world 0 new_session) = Inr \<lparr>incs = [''b.f''], uses = [], mods = []\<rparr> \<and>
   reads (snd (find_deps cycle_world 0 new_session)) = [0] \<and>
   fst (find_deps cycle_world 0 (snd (find_deps cycle_world 0 new_session))) = Inr \<lparr>incs = [''b.f''], uses = [], mods = []\<rparr> \<and>
   reads (snd (find_deps cycle_world 0 (snd (find_deps cycle_world 0 new_session)))) = [0]"
proof -
  have h: "find_deps cycle_world 0 new_session =
      (Inr \<lparr>incs = [''b.f''], uses = [], mods = []\<rparr>, snd (find_deps cycle_world 0 new_session))"
    by (simp add: prod_eq_iff eval_cache eval_rx cycle_world_def)
  have c: "deps_cached new_session 0 = None"
    by (simp add: eval_cache)
  have f: "fst (find_deps cycle_world 0 new_session) = Inr \<lparr>incs = [''b.f''], uses = [], mods = []\<rparr>"
    using h by (metis fst_conv)
  show ?thesis
    using find_deps_memoized [OF h] f c by (simp add: new_session_def)
qed

lemma cfr_hit:
  assumes "node_cached ctx (d, f) = Some r"
  shows "fst (cached_find_resource w d f ctx) = r"
    "lookups (snd (cached_find_resource w d f ctx)) = lookups ctx"
    "node_cached (snd (cached_find_resource w d f ctx)) (d, f) = Some r"
  using assms
  by (auto simp: cached_find_resource_def node_cached_def lru_get_def map_of_touch Let_def
      split: option.splits)

lemma cfr_miss:
  assumes "node_cached ctx (d, f) = None"
  shows "fst (cached_find_resource w d f ctx) = find_resource w d f"
    "lookups (snd (cached_find_resource w d f ctx)) = lookups ctx @ [(d, f)]"
  using assms
  by (auto simp: cached_find_resource_def node_cached_def lru_get_def lru_cache_def Let_def
      split: option.splits)

lemma ahead_cached:
  assumes "ahead_of ctx k S"
  shows "node_cached ctx k = Some None"
proof -
  from assms obtain c pre post where c: "cache_fc_scan_node ctx = Some c"
    and d: "distinct (map fst (items c))" and i: "items c = pre @ (k, None) # post"
    by (auto simp: ahead_of_def)
  from d i have "k \<notin> fst ` set pre" by auto
  then have "map_of (pre @ (k, None) # post) k = Some None"
    by (simp add: map_of_append map_of_eq_None_iff [THEN iffD2] map_add_def split: option.splits)
  with c i show ?thesis by (simp add: node_cached_def)
qed

lemma distinct_touch: "distinct (map fst xs) \<Longrightarrow> distinct (map fst (touch k v xs))"
  by (auto simp: touch_def distinct_map_filter)

lemma cfr_first:
  assumes "cached_find_resource w d f ctx = (None, ctx1)" and "cache_wf ctx"
  shows "ahead_of ctx1 (d, f) {}"
proof -
  let ?k = "(d, f)"
  show ?thesis
  proof (cases "cache_fc_scan_node ctx")
    case None
    with assms(1) show ?thesis
      by (auto simp: cached_find_resource_def lru_get_def lru_cache_def lru_set_def ahead_of_def
          FILE_CACHE_SIZE_def Let_def)
  next
    case (Some c)
    with assms(2) have m: "maxlen c = FILE_CACHE_SIZE" and dc: "distinct (map fst (items c))"
      by (simp_all add: cache_wf_def)
    show ?thesis
    proof (cases "map_of (items c) ?k")
      case None
      then have nk: "?k \<notin> fst ` set (items c)"
        by (simp add: map_of_eq_None_iff)
      from dc have "distinct (map fst (butlast (items c)))"
        by (simp add: map_butlast distinct_butlast)
      moreover have "?k \<notin> fst ` set (butlast (items c))"
        using nk by (auto dest: in_set_butlastD)
      ultimately show ?thesis
        using assms(1) Some None m dc nk
        by (auto simp: cached_find_resource_def lru_get_def lru_set_def ahead_of_def Let_def
            split: if_splits)
    next
      case (Some v)
      with assms(1) \<open>cache_fc_scan_node ctx = Some c\<close> m distinct_touch [OF dc, of ?k v]
      show ?thesis
        by (auto simp: cached_find_resource_def lru_get_def ahead_of_def Let_def touch_def)
    qed
  qed
qed

lemma ahead_ofI:
  "cache_fc_scan_node ctx = Some c \<Longrightarrow> maxlen c = FILE_CACHE_SIZE \<Longrightarrow> distinct (map fst (items c))
   \<Longrightarrow> items c = pre @ (k, None) # post \<Longrightarrow> fst ` set pre \<subseteq> S \<Longrightarrow> ahead_of ctx k S"
  unfolding ahead_of_def by blast

lemma ahead_step:
  assumes a: "ahead_of ctx k S" and fin: "finite S"
    and card: "card (insert (d', f') S - {k}) < FILE_CACHE_SIZE"
  shows "ahead_of (snd (cached_find_resource w d' f' ctx)) k (insert (d', f') S) \<and>
         count_list (lookups (snd (cached_find_resource w d' f' ctx))) k = count_list (lookups ctx) k"
proof -
  let ?k' = "(d', f')"
  from a obtain c pre post where c: "cache_fc_scan_node ctx = Some c"
    and m: "maxlen c = FILE_CACHE_SIZE" and dc: "distinct (map fst (items c))"
    and i: "items c = pre @ (k, None) # post" and pre: "fst ` set pre \<subseteq> S"
    by (auto simp: ahead_of_def)
  from dc i have kpre: "k \<notin> fst ` set pre" by auto
  show ?thesis
  proof (cases "map_of (items c) ?k'")
    case (Some v)
    then have key: "node_cached ctx ?k' = Some v"
      using c by (simp add: node_cached_def)
    have v: "?k' = k \<Longrightarrow> v = None"
      using Some i kpre by (auto simp: map_of_append map_add_def map_of_eq_None_iff [THEN iffD2]
          split: option.splits)
    have new: "cache_fc_scan_node (snd (cached_find_resource w d' f' ctx)) = Some (c\<lparr>items := touch ?k' v (items c)\<rparr>)"
      using c Some by (simp add: cached_find_resource_def lru_get_def Let_def)
    have "ahead_of (snd (cached_find_resource w d' f' ctx)) k (insert ?k' S)"
    proof (cases "?k' = k")
      case True
      with v have t: "items (c\<lparr>items := touch ?k' v (items c)\<rparr>) =
          [] @ (k, None) # filter (\<lambda>e. fst e \<noteq> k) (pre @ post)"
        by (auto simp: touch_def i)
      show ?thesis
        by (rule ahead_ofI [OF new _ _ t]) (use m distinct_touch [OF dc, of ?k' v] in simp_all)
    next
      case False
      then have t: "items (c\<lparr>items := touch ?k' v (items c)\<rparr>) =
          ((?k', v) # filter (\<lambda>e. fst e \<noteq> ?k') pre) @ (k, None) # filter (\<lambda>e. fst e \<noteq> ?k') post"
        by (auto simp: touch_def i)
      have sub: "fst ` set ((?k', v) # filter (\<lambda>e. fst e \<noteq> ?k') pre) \<subseteq> insert ?k' S"
        using pre by auto
      show ?thesis
        by (rule ahead_ofI [OF new _ _ t sub]) (use m distinct_touch [OF dc, of ?k' v] in simp_all)
    qed
    with cfr_hit(2) [OF key] show ?thesis by simp
  next
    case None
    then have nk: "?k' \<notin> fst ` set (items c)"
      by (simp add: map_of_eq_None_iff)
    with i have ne: "?k' \<noteq> k" by auto
    from None c have key: "node_cached ctx ?k' = None"
      by (simp add: node_cached_def)
    let ?v = "find_resource w d' f'"
    have new: "cache_fc_scan_node (snd (cached_find_resource w d' f' ctx)) = Some (lru_set c ?k' ?v)"
      using c None by (simp add: cached_find_resource_def lru_get_def Let_def)
    have post: "post \<noteq> []" if full: "\<not> length (items c) < maxlen c"
    proof
      assume "post = []"
      with i full m have len: "FILE_CACHE_SIZE \<le> Suc (length pre)" by simp
      from dc i have "distinct (map fst pre)" by simp
      then have "card (fst ` set pre) = length pre"
        by (metis distinct_card length_map set_map)
      moreover have "insert ?k' (fst ` set pre) \<subseteq> insert ?k' S - {k}"
        using pre kpre ne by auto
      then have "card (insert ?k' (fst ` set pre)) \<le> card (insert ?k' S - {k})"
        using fin by (intro card_mono) auto
      moreover have "?k' \<notin> fst ` set pre"
        using nk i by auto
      then have "card (insert ?k' (fst ` set pre)) = Suc (card (fst ` set pre))"
        by simp
      ultimately show False using card len by simp
    qed
    have "\<exists>post'. items (lru_set c ?k' ?v) = ((?k', ?v) # pre) @ (k, None) # post' \<and>
        distinct (map fst (items (lru_set c ?k' ?v)))"
    proof (cases "length (items c) < maxlen c")
      case True
      with nk dc i show ?thesis by (auto simp: lru_set_def)
    next
      case False
      from post [OF False] have "butlast (items c) = pre @ (k, None) # butlast post"
        by (simp add: i butlast_append)
      moreover have "distinct (map fst (butlast (items c)))"
        using dc by (simp add: map_butlast distinct_butlast)
      moreover have "?k' \<notin> fst ` set (butlast (items c))"
        using nk by (auto dest: in_set_butlastD)
      ultimately show ?thesis
        using False nk by (auto simp: lru_set_def)
    qed
    then obtain post' where t: "items (lru_set c ?k' ?v) = ((?k', ?v) # pre) @ (k, None) # post'"
      and dn: "distinct (map fst (items (lru_set c ?k' ?v)))" by blast
    have mn: "maxlen (lru_set c ?k' ?v) = FILE_CACHE_SIZE"
      using m by (simp add: lru_set_def)
    have sub: "fst ` set ((?k', ?v) # pre) \<subseteq> insert ?k' S"
      using pre by auto
    have "ahead_of (snd (cached_find_resource w d' f' ctx)) k (insert ?k' S)"
      by (rule ahead_ofI [OF new mn dn t sub])
    with cfr_miss(2) [OF key] ne show ?thesis by simp
  qed
qed

lemma ahead_run:
  assumes "ahead_of ctx k S" and "finite S" and "card ((S \<union> set ks) - {k}) < FILE_CACHE_SIZE"
  shows "ahead_of (probe_all w ks ctx) k (S \<union> set ks) \<and>
         count_list (lookups (probe_all w ks ctx)) k = count_list (lookups ctx) k"
  using assms
proof (induction ks arbitrary: ctx S)
  case Nil
  then show ?case by simp
next
  case (Cons k' ks)
  obtain d' f' where k': "k' = (d', f')" by (cases k')
  have "insert k' S - {k} \<subseteq> (S \<union> set (k' # ks)) - {k}" by auto
  then have "card (insert k' S - {k}) \<le> card ((S \<union> set (k' # ks)) - {k})"
    using Cons.prems(2) by (intro card_mono) auto
  with Cons.prems(3) have c1: "card (insert (d', f') S - {k}) < FILE_CACHE_SIZE"
    by (simp add: k')
  note step = ahead_step [OF Cons.prems(1,2) c1, of w]
  have "insert (d', f') S \<union> set ks = S \<union> set (k' # ks)"
    by (auto simp: k')
  with Cons.IH [of "snd (cached_find_resource w d' f' ctx)" "insert (d', f') S"] step Cons.prems(2,3)
  show ?case by (simp add: k')
qed

text \<open>
  Claim C9, as amended. Once \<open>cached_find_resource\<close> has returned absence for a pair, the
  directory lookup is not called for that pair again during any run of further calls that
  names fewer than \<open>FILE_CACHE_SIZE\<close> other pairs, and a call for the pair after that run
  returns the cached absence without a lookup.
\<close>

theorem negative_result_cached:
  assumes "cached_find_resource w d f ctx = (None, ctx1)" and "cache_wf ctx"
    and "card (set ks - {(d, f)}) < FILE_CACHE_SIZE"
  shows "fst (cached_find_resource w d f (probe_all w ks ctx1)) = None \<and>
         lookups (snd (cached_find_resource w d f (probe_all w ks ctx1))) = lookups (probe_all w ks ctx1) \<and>
         count_list (lookups (probe_all w ks ctx1)) (d, f) = count_list (lookups ctx1) (d, f)"
proof -
  have "ahead_of ctx1 (d, f) {}"
    using assms(1,2) by (rule cfr_first)
  then have "ahead_of (probe_all w ks ctx1) (d, f) ({} \<union> set ks) \<and>
      count_list (lookups (probe_all w ks ctx1)) (d, f) = count_list (lookups ctx1) (d, f)"
    using assms(3) by (intro ahead_run) simp_all
  then have a: "ahead_of (probe_all w ks ctx1) (d, f) (set ks)"
    and c: "count_list (lookups (probe_all w ks ctx1)) (d, f) = count_list (lookups ctx1) (d, f)"
    by simp_all
  from a have "node_cached (probe_all w ks ctx1) (d, f) = Some None"
    by (rule ahead_cached)
  from cfr_hit(1,2) [OF this] c show ?thesis
    by simp
qed

lemmas eval_world = empty_world_def collide_world_def alias_world_def cycle_world_def
  two_dirs_world_def unreadable_world_def

theorem negative_result_cached_witness:
  "cache_wf new_session \<and>
   card (set [(0, ''y.h''), (0, ''x.h''), (1, ''x.h'')] - {(0::nat, ''x.h'')}) < FILE_CACHE_SIZE \<and>
   fst (cached_find_resource empty_world 0 ''x.h'' new_session) = None \<and>
   fst (cached_find_resource empty_world 0 ''x.h''
         (probe_all empty_world [(0, ''y.h''), (0, ''x.h''), (1, ''x.h'')]
            (snd (cached_find_resource empty_world 0 ''x.h'' new_session)))) = None \<and>
   lookups (snd (cached_find_resource empty_world 0 ''x.h''
         (probe_all empty_world [(0, ''y.h''), (0, ''x.h''), (1, ''x.h'')]
            (snd (cached_find_resource empty_world 0 ''x.h'' new_session)))))
     = [(0, ''x.h''), (0, ''y.h''), (1, ''x.h'')]"
proof -
  let ?ks = "[(0::nat, ''y.h''), (0, ''x.h''), (1, ''x.h'')]"
  have h: "cached_find_resource empty_world 0 ''x.h'' new_session =
      (None, snd (cached_find_resource empty_world 0 ''x.h'' new_session))"
    by (simp add: prod_eq_iff eval_cache eval_world)
  have wf: "cache_wf new_session"
    by (simp add: cache_wf_def new_session_def)
  have "set ?ks - {(0::nat, ''x.h'')} = {(0, ''y.h''), (1, ''x.h'')}"
    by auto
  then have c: "card (set ?ks - {(0::nat, ''x.h'')}) < FILE_CACHE_SIZE"
    by (simp add: FILE_CACHE_SIZE_def)
  have l: "lookups (probe_all empty_world ?ks (snd (cached_find_resource empty_world 0 ''x.h'' new_session)))
      = [(0, ''x.h''), (0, ''y.h''), (1, ''x.h'')]"
    by (simp add: eval_cache eval_world)
  have n: "fst (cached_find_resource empty_world 0 ''x.h'' new_session) = None"
    using h by (metis fst_conv)
  note t = negative_result_cached [OF h wf c]
  have a: "fst (cached_find_resource empty_world 0 ''x.h''
         (probe_all empty_world ?ks (snd (cached_find_resource empty_world 0 ''x.h'' new_session)))) = None"
    using t by (rule conjunct1)
  have b: "lookups (snd (cached_find_resource empty_world 0 ''x.h''
         (probe_all empty_world ?ks (snd (cached_find_resource empty_world 0 ''x.h'' new_session)))))
     = [(0, ''x.h''), (0, ''y.h''), (1, ''x.h'')]"
    using t [THEN conjunct2, THEN conjunct1] l by (rule trans)
  from wf c n a b show ?thesis
    by (intro conjI)
qed

lemma take_cons_full:
  "0 < m \<Longrightarrow> length xs \<le> m \<Longrightarrow> (if length xs < m then e # xs else e # butlast xs) = take m (e # xs)"
  by (cases m) (auto simp: butlast_conv_take)

lemma take_app_take: "take m (xs @ take m ys) = take m (xs @ ys)"
  by (simp add: min_def)

lemma fresh_run:
  assumes "cache_fc_scan_node ctx = Some c" and "0 < maxlen c" and "length (items c) \<le> maxlen c"
    and "distinct ks" and "set ks \<inter> fst ` set (items c) = {}"
  shows "cache_fc_scan_node (probe_all w ks ctx) =
    Some (c\<lparr>items := take (maxlen c)
                (rev (map (\<lambda>k. (k, find_resource w (fst k) (snd k))) ks) @ items c)\<rparr>)"
  using assms
proof (induction ks arbitrary: ctx c)
  case Nil
  then show ?case by simp
next
  case (Cons k ks)
  let ?g = "\<lambda>k. (k, find_resource w (fst k) (snd k))"
  let ?c' = "c\<lparr>items := take (maxlen c) (?g k # items c)\<rparr>"
  from Cons.prems(5) have nk: "k \<notin> fst ` set (items c)" by auto
  then have "map_of (items c) k = None"
    by (simp add: map_of_eq_None_iff)
  then have "cache_fc_scan_node (snd (cached_find_resource w (fst k) (snd k) ctx)) = Some (lru_set c k (snd (?g k)))"
    using Cons.prems(1) by (simp add: cached_find_resource_def lru_get_def Let_def)
  also have "lru_set c k (snd (?g k)) = ?c'"
    using nk take_cons_full [OF Cons.prems(2,3), of "?g k"] by (auto simp: lru_set_def split: if_splits)
  finally have new: "cache_fc_scan_node (snd (cached_find_resource w (fst k) (snd k) ctx)) = Some ?c'" .
  have "set ks \<inter> fst ` set (items ?c') = {}"
    using Cons.prems(4,5) by (fastforce dest!: in_set_takeD)
  with Cons.IH [OF new] Cons.prems(2,4)
  have "cache_fc_scan_node (probe_all w ks (snd (cached_find_resource w (fst k) (snd k) ctx))) =
      Some (?c'\<lparr>items := take (maxlen ?c') (rev (map ?g ks) @ items ?c')\<rparr>)"
    by simp
  then show ?case
    by (simp add: take_app_take)
qed

lemma length_many_names: "length (many_names n) = n"
  by (simp add: many_names_def)

lemma distinct_many_names: "distinct (many_names n)"
proof -
  have "inj_on (\<lambda>i. replicate i CHR ''a'') A" for A :: "nat set"
    by (rule inj_onI) (metis length_replicate)
  then show ?thesis
    by (simp add: many_names_def distinct_map)
qed

lemma x_not_many: "''x.h'' \<notin> set (many_names n)"
proof
  assume "''x.h'' \<in> set (many_names n)"
  then obtain i where "''x.h'' = replicate i CHR ''a''"
    by (auto simp: many_names_def)
  then have "set ''x.h'' = set (replicate i CHR ''a'')"
    by simp
  then show False
    by (auto simp: set_replicate_conv_if split: if_splits)
qed

lemma crowded_evicted: "node_cached crowded_session (0, ''x.h'') = None"
proof -
  let ?ctx1 = "snd (cached_find_resource empty_world 0 ''x.h'' new_session)"
  let ?c = "\<lparr>maxlen = FILE_CACHE_SIZE, items = [((0::nat, ''x.h''), None :: node option)]\<rparr>"
  let ?ks = "map (Pair (0::nat)) (many_names FILE_CACHE_SIZE)"
  let ?g = "\<lambda>k. (k, find_resource empty_world (fst k) (snd k))"
  have c1: "cache_fc_scan_node ?ctx1 = Some ?c"
    by (simp add: eval_cache eval_world)
  have d: "distinct ?ks"
    by (simp add: distinct_map distinct_many_names inj_on_def)
  have i: "set ?ks \<inter> fst ` set (items ?c) = {}"
    using x_not_many by auto
  have "cache_fc_scan_node crowded_session =
      Some (?c\<lparr>items := take (maxlen ?c) (rev (map ?g ?ks) @ items ?c)\<rparr>)"
    unfolding crowded_session_def
    by (rule fresh_run [OF c1 _ _ d i]) (simp_all add: FILE_CACHE_SIZE_def)
  moreover have "take (maxlen ?c) (rev (map ?g ?ks) @ items ?c) = rev (map ?g ?ks)"
    by (simp add: length_many_names)
  moreover have "(0, ''x.h'') \<notin> fst ` set (rev (map ?g ?ks))"
    using x_not_many by (auto simp: image_iff)
  ultimately show ?thesis
    by (simp add: node_cached_def map_of_eq_None_iff)
qed

text \<open>
  Claim C9 as stated fails: in a session where \<open>x.h\<close> was found absent in directory 0 and
  \<open>FILE_CACHE_SIZE\<close> other filenames were then looked for, the negative result has been
  evicted, and the next call for \<open>x.h\<close> invokes the directory lookup again.
\<close>

theorem negative_result_evicted:
  "fst (cached_find_resource empty_world 0 ''x.h'' new_session) = None \<and>
   lookups (snd (cached_find_resource empty_world 0 ''x.h'' crowded_session)) =
     lookups crowded_session @ [(0, ''x.h'')]"
proof -
  have "fst (cached_find_resource empty_world 0 ''x.h'' new_session) = None"
    by (simp add: eval_cache eval_world)
  with cfr_miss(2) [OF crowded_evicted] show ?thesis
    by simp
qed

section \<open>Sessions that agree with the files\<close>

lemma set_touch: "set (touch k v xs) \<subseteq> insert (k, v) (set xs)"
  by (auto simp: touch_def)

lemma set_lru_set: "set (items (lru_set c k v)) \<subseteq> insert (k, v) (set (items c))"
  by (auto simp: lru_set_def touch_def dest: in_set_butlastD)

lemma coherent_new: "coherent w new_session"
  by (simp add: coherent_def new_session_def)

lemma find_deps_coherent:
  assumes "coherent w ctx"
  shows "fst (find_deps w n ctx) = (case read w n of None \<Rightarrow> Inl IOError | Some txt \<Rightarrow> Inr (get_deps txt))"
    and "coherent w (snd (find_deps w n ctx))"
proof -
  let ?ok = "\<lambda>e. map_option get_deps (read w (fst e)) = Some (snd e)"
  define cache where "cache = (case cache_fc_scan_deps ctx of Some c \<Rightarrow> c | None \<Rightarrow> lru_cache DEPS_CACHE_SIZE)"
  have ok: "\<forall>e \<in> set (items cache). ?ok e"
    using assms by (auto simp: cache_def coherent_def lru_cache_def list_all_iff split: option.splits)
  have node: "cache_fc_scan_node (snd (find_deps w n ctx)) = cache_fc_scan_node ctx"
    by (auto simp: find_deps_def Let_def split: option.splits)
  show "fst (find_deps w n ctx) = (case read w n of None \<Rightarrow> Inl IOError | Some txt \<Rightarrow> Inr (get_deps txt))"
  proof (cases "lru_get cache n")
    case None
    then show ?thesis
      by (auto simp: find_deps_def cache_def [symmetric] Let_def split: option.splits)
  next
    case (Some a)
    then obtain d c' where a: "a = (d, c')" by (cases a)
    with Some have "(n, d) \<in> set (items cache)"
      by (auto simp: lru_get_Some dest: map_of_SomeD)
    with ok have "map_option get_deps (read w n) = Some d" by auto
    with Some a show ?thesis
      by (auto simp: find_deps_def cache_def [symmetric] Let_def split: option.splits)
  qed
  have "\<exists>c. cache_fc_scan_deps (snd (find_deps w n ctx)) = Some c \<and> (\<forall>e \<in> set (items c). ?ok e)"
  proof (cases "lru_get cache n")
    case None
    note miss = this
    show ?thesis
    proof (cases "read w n")
      case None
      with miss ok show ?thesis
        by (auto simp: find_deps_def cache_def [symmetric] Let_def)
    next
      case (Some body)
      with miss ok set_lru_set [of cache n "get_deps body"] show ?thesis
        by (auto simp: find_deps_def cache_def [symmetric] Let_def)
    qed
  next
    case (Some a)
    then obtain d c' where a: "a = (d, c')" by (cases a)
    with Some have in_c: "(n, d) \<in> set (items cache)" and c': "c' = cache\<lparr>items := touch n d (items cache)\<rparr>"
      by (auto simp: lru_get_Some dest: map_of_SomeD)
    with ok set_touch [of n d "items cache"] have "\<forall>e \<in> set (items c'). ?ok e"
      by auto
    with Some a show ?thesis
      by (auto simp: find_deps_def cache_def [symmetric] Let_def)
  qed
  with node assms show "coherent w (snd (find_deps w n ctx))"
    by (auto simp: coherent_def list_all_iff)
qed

lemma cfr_coherent:
  assumes "coherent w ctx"
  shows "fst (cached_find_resource w d f ctx) = find_resource w d f"
    and "coherent w (snd (cached_find_resource w d f ctx))"
proof -
  let ?ok = "\<lambda>e. find_resource w (fst (fst e)) (snd (fst e)) = snd e"
  define cache where "cache = (case cache_fc_scan_node ctx of Some c \<Rightarrow> c | None \<Rightarrow> lru_cache FILE_CACHE_SIZE)"
  have ok: "\<forall>e \<in> set (items cache). ?ok e"
    using assms by (auto simp: cache_def coherent_def lru_cache_def list_all_iff split: option.splits)
  have deps: "cache_fc_scan_deps (snd (cached_find_resource w d f ctx)) = cache_fc_scan_deps ctx"
    by (auto simp: cached_find_resource_def Let_def split: option.splits)
  show "fst (cached_find_resource w d f ctx) = find_resource w d f"
  proof (cases "lru_get cache (d, f)")
    case None
    then show ?thesis
      by (auto simp: cached_find_resource_def cache_def [symmetric] Let_def)
  next
    case (Some a)
    then obtain r c' where a: "a = (r, c')" by (cases a)
    with Some have "((d, f), r) \<in> set (items cache)"
      by (auto simp: lru_get_Some dest: map_of_SomeD)
    with ok have "find_resource w d f = r" by auto
    with Some a show ?thesis
      by (auto simp: cached_find_resource_def cache_def [symmetric] Let_def)
  qed
  have "\<exists>c. cache_fc_scan_node (snd (cached_find_resource w d f ctx)) = Some c \<and> (\<forall>e \<in> set (items c). ?ok e)"
  proof (cases "lru_get cache (d, f)")
    case None
    with ok set_lru_set [of cache "(d, f)" "find_resource w d f"] show ?thesis
      by (auto simp: cached_find_resource_def cache_def [symmetric] Let_def)
  next
    case (Some a)
    then obtain r c' where a: "a = (r, c')" by (cases a)
    with Some have in_c: "((d, f), r) \<in> set (items cache)" and c': "c' = cache\<lparr>items := touch (d, f) r (items cache)\<rparr>"
      by (auto simp: lru_get_Some dest: map_of_SomeD)
    with ok set_touch [of "(d, f)" r "items cache"] have "\<forall>e \<in> set (items c'). ?ok e"
      by auto
    with Some a show ?thesis
      by (auto simp: cached_find_resource_def cache_def [symmetric] Let_def)
  qed
  with deps assms show "coherent w (snd (cached_find_resource w d f ctx))"
    by (auto simp: coherent_def list_all_iff)
qed

lemma cfr_lookups:
  "lookups (snd (cached_find_resource w d f ctx)) = lookups ctx \<or>
   lookups (snd (cached_find_resource w d f ctx)) = lookups ctx @ [(d, f)]"
  by (auto simp: cached_find_resource_def Let_def split: option.splits)

lemma probe_dirs_coherent:
  assumes "coherent w ctx"
  shows "fst (probe_dirs w ds f ctx) = first_match w ds f \<and>
         coherent w (snd (probe_dirs w ds f ctx)) \<and>
         (\<exists>ls. lookups (snd (probe_dirs w ds f ctx)) = lookups ctx @ ls \<and>
               set ls \<subseteq> (\<lambda>d. (d, f)) ` set (probed_dirs w ds f))"
  using assms
proof (induction ds arbitrary: ctx)
  case Nil
  then show ?case by simp
next
  case (Cons d ds)
  let ?c = "cached_find_resource w d f ctx"
  note c = cfr_coherent [OF Cons.prems, of d f]
  from cfr_lookups [of w d f ctx] obtain l1 where l1: "lookups (snd ?c) = lookups ctx @ l1"
    "set l1 \<subseteq> {(d, f)}" by auto
  show ?case
  proof (cases "find_resource w d f")
    case None
    from Cons.IH [OF c(2)] obtain ls where
      "fst (probe_dirs w ds f (snd ?c)) = first_match w ds f"
      "coherent w (snd (probe_dirs w ds f (snd ?c)))"
      "lookups (snd (probe_dirs w ds f (snd ?c))) = lookups (snd ?c) @ ls"
      "set ls \<subseteq> (\<lambda>d. (d, f)) ` set (probed_dirs w ds f)" by blast
    with None c(1) l1 show ?thesis
      by (auto simp: split_beta intro!: exI [of _ "l1 @ ls"])
  next
    case (Some n)
    with c l1 show ?thesis
      by (auto simp: split_beta)
  qed
qed

section \<open>One include, one file\<close>

lemma tryfind_header_coherent:
  assumes "coherent w ctx" and "tryfind_header w f (p, ctx) = (p', ctx')"
  shows "(case first_match w (incpaths p) f of
            Some n \<Rightarrow> nodes p' = nodes p @ [n] \<and> waiting p' = waiting p @ [n] \<and> names p' = names p
          | None \<Rightarrow> nodes p' = nodes p \<and> waiting p' = waiting p \<and>
                    names p' = (if f \<in> set (names p) then names p else names p @ [f]))"
    and "\<exists>ls. lookups ctx' = lookups ctx @ ls \<and>
               set ls \<subseteq> (\<lambda>d. (d, f)) ` set (probed_dirs w (incpaths p) f)"
    and "coherent w ctx'"
proof -
  from probe_dirs_coherent [OF assms(1), of "incpaths p" f]
  have fm: "fst (probe_dirs w (incpaths p) f ctx) = first_match w (incpaths p) f"
    and co: "coherent w (snd (probe_dirs w (incpaths p) f ctx))"
    and lk: "\<exists>ls. lookups (snd (probe_dirs w (incpaths p) f ctx)) = lookups ctx @ ls \<and>
               set ls \<subseteq> (\<lambda>d. (d, f)) ` set (probed_dirs w (incpaths p) f)"
    by blast+
  have c: "ctx' = snd (probe_dirs w (incpaths p) f ctx)"
    using assms(2) by (auto simp: tryfind_header_def Let_def split: prod.splits option.splits)
  have "case fst (probe_dirs w (incpaths p) f ctx) of
            Some n \<Rightarrow> nodes p' = nodes p @ [n] \<and> waiting p' = waiting p @ [n] \<and> names p' = names p
          | None \<Rightarrow> nodes p' = nodes p \<and> waiting p' = waiting p \<and>
                    names p' = (if f \<in> set (names p) then names p else names p @ [f])"
    using assms(2)
    by (auto simp: tryfind_header_def add_name_def Let_def split: prod.splits option.splits)
  with fm show "(case first_match w (incpaths p) f of
            Some n \<Rightarrow> nodes p' = nodes p @ [n] \<and> waiting p' = waiting p @ [n] \<and> names p' = names p
          | None \<Rightarrow> nodes p' = nodes p \<and> waiting p' = waiting p \<and>
                    names p' = (if f \<in> set (names p) then names p else names p @ [f]))"
    by simp
  from lk c show "\<exists>ls. lookups ctx' = lookups ctx @ ls \<and>
               set ls \<subseteq> (\<lambda>d. (d, f)) ` set (probed_dirs w (incpaths p) f)"
    by simp
  from co c show "coherent w ctx'" by simp
qed

lemma tryfind_header_fields:
  assumes "tryfind_header w f (p, ctx) = (p', ctx')"
  shows "seen p' = seen p" "extracted p' = extracted p" "incpaths p' = incpaths p"
    "scheduled p' = scheduled p @ [f]"
  using assms
  by (auto simp: tryfind_header_def add_name_def Let_def split: prod.splits option.splits if_splits)

text \<open>
  Claim C7. In a session that agrees with the files, \<open>tryfind_header\<close> takes the node of
  the first search directory that has the filename: it appends that node to \<open>nodes\<close> and
  \<open>waiting\<close> and leaves \<open>names\<close> alone; only when no directory has the filename does it
  add the filename to \<open>names\<close> (once). The directories probed are at most those up to and
  including the first that has the filename.
\<close>

theorem first_match_wins:
  assumes "coherent w ctx" and "tryfind_header w f (p, ctx) = (p', ctx')"
  shows "(case first_match w (incpaths p) f of
            Some n \<Rightarrow> nodes p' = nodes p @ [n] \<and> waiting p' = waiting p @ [n] \<and> names p' = names p
          | None \<Rightarrow> nodes p' = nodes p \<and> waiting p' = waiting p \<and>
                    names p' = (if f \<in> set (names p) then names p else names p @ [f])) \<and>
         (\<exists>ls. lookups ctx' = lookups ctx @ ls \<and>
               set ls \<subseteq> (\<lambda>d. (d, f)) ` set (probed_dirs w (incpaths p) f))"
  using tryfind_header_coherent(1,2) [OF assms] by (rule conjI)

lemmas eval_walk = start_def start_loop.simps iter_def tryfind_header_def add_name_def
  fortran_parser_def

theorem first_match_wins_witness:
  "coherent two_dirs_world new_session \<and>
   find_resource two_dirs_world 8 ''h.inc'' = Some 3 \<and>
   find_resource two_dirs_world 9 ''h.inc'' = Some 4 \<and>
   nodes (fst (tryfind_header two_dirs_world ''h.inc'' (fortran_parser [8, 9], new_session))) = [3] \<and>
   names (fst (tryfind_header two_dirs_world ''h.inc'' (fortran_parser [8, 9], new_session))) = [] \<and>
   lookups (snd (tryfind_header two_dirs_world ''h.inc'' (fortran_parser [8, 9], new_session))) = [(8, ''h.inc'')]"
proof -
  let ?r = "tryfind_header two_dirs_world ''h.inc'' (fortran_parser [8, 9], new_session)"
  have h: "?r = (fst ?r, snd ?r)" by simp
  have i: "incpaths (fortran_parser [8, 9]) = [8, 9]" "nodes (fortran_parser [8, 9]) = []"
    "names (fortran_parser [8, 9]) = []" "lookups new_session = []"
    by (simp_all add: fortran_parser_def new_session_def)
  have fr: "find_resource two_dirs_world 8 ''h.inc'' = Some 3"
    "find_resource two_dirs_world 9 ''h.inc'' = Some 4"
    by (simp_all add: two_dirs_world_def)
  from first_match_wins [OF coherent_new h] i fr
  have "nodes (fst ?r) = [3]" "names (fst ?r) = []"
    "\<exists>ls. lookups (snd ?r) = ls \<and> set ls \<subseteq> {(8, ''h.inc'')}"
    by simp_all
  moreover have "lookups (snd ?r) = [(8, ''h.inc'')]"
    by (simp add: eval_walk eval_cache two_dirs_world_def)
  ultimately show ?thesis
    using coherent_new fr by simp
qed

lemma find_deps_unreadable:
  assumes "read w n = None" and "deps_cached ctx n = None"
  shows "fst (find_deps w n ctx) = Inl IOError"
    and "deps_cached (snd (find_deps w n ctx)) n = None"
    and "reads (snd (find_deps w n ctx)) = reads ctx @ [n]"
  using assms
  by (auto simp: find_deps_def deps_cached_def lru_get_def lru_cache_def Let_def split: option.splits)

text \<open>
  Claim C10. When the next node of the worklist is neither seen nor cached and cannot be
  read, the traversal stops with the I/O error; the node is not marked in \<open>seen\<close>, no
  record for it is in the cache, and \<open>nodes\<close> and \<open>names\<close> are as they were before the
  failing step. The file was read (in vain) once.
\<close>

theorem read_error_atomic:
  assumes "read w n = None" and "SeenNode n \<notin> seen p" and "deps_cached ctx n = None"
    and "waiting p = n # rest"
  shows "\<exists>p' ctx'. start_loop w (p, ctx) = Some (Inl IOError, p', ctx') \<and>
           iter w n (p\<lparr>waiting := rest\<rparr>, ctx) = (Inl IOError, p', ctx') \<and>
           seen p' = seen p \<and> nodes p' = nodes p \<and> names p' = names p \<and>
           deps_cached ctx' n = None \<and> reads ctx' = reads ctx @ [n]"
proof -
  let ?p' = "p\<lparr>waiting := rest, extracted := extracted p @ [n]\<rparr>"
  note fd = find_deps_unreadable [OF assms(1,3)]
  obtain r ctx' where fd': "find_deps w n ctx = (r, ctx')"
    by (cases "find_deps w n ctx")
  with fd have r: "r = Inl IOError" and c: "deps_cached ctx' n = None" "reads ctx' = reads ctx @ [n]"
    by simp_all
  have it: "iter w n (p\<lparr>waiting := rest\<rparr>, ctx) = (Inl IOError, ?p', ctx')"
    using assms(2) by (simp add: iter_def fd' r)
  then have "start_loop w (p, ctx) = Some (Inl IOError, ?p', ctx')"
    using assms(4) by (subst start_loop.simps) simp
  with it c show ?thesis
    by (intro exI [of _ ?p'] exI [of _ ctx']) simp
qed

theorem read_error_atomic_witness:
  "read unreadable_world 1 = None \<and>
   map_option fst (start unreadable_world 0 (fortran_parser [9], new_session)) = Some (Inl IOError) \<and>
   map_option (nodes \<circ> fst \<circ> snd) (start unreadable_world 0 (fortran_parser [9], new_session)) = Some [1] \<and>
   map_option (names \<circ> fst \<circ> snd) (start unreadable_world 0 (fortran_parser [9], new_session)) = Some [''USE@m''] \<and>
   map_option (seen \<circ> fst \<circ> snd) (start unreadable_world 0 (fortran_parser [9], new_session))
     = Some {SeenNode 0, SeenName ''b.f''} \<and>
   map_option (reads \<circ> snd \<circ> snd) (start unreadable_world 0 (fortran_parser [9], new_session)) = Some [0, 1]"
proof -
  let ?s1 = "iter unreadable_world 0 ((fortran_parser [9])\<lparr>waiting := []\<rparr>, new_session)"
  let ?p = "fst (snd ?s1)" and ?c = "snd (snd ?s1)"
  have s1: "fst ?s1 = Inr ()" "waiting ?p = [1]" "nodes ?p = [1]" "names ?p = [''USE@m'']"
    "seen ?p = {SeenNode 0, SeenName ''b.f''}" "reads ?c = [0]" "deps_cached ?c 1 = None"
    by (simp_all add: eval_walk eval_cache eval_rx unreadable_world_def insert_commute)
  have r: "read unreadable_world 1 = None"
    by (simp add: unreadable_world_def)
  have ns: "SeenNode 1 \<notin> seen ?p"
    by (simp add: s1)
  from read_error_atomic [OF r ns s1(7) s1(2)]
  obtain p' ctx' where res: "start_loop unreadable_world (?p, ?c) = Some (Inl IOError, p', ctx')"
    "seen p' = seen ?p" "nodes p' = nodes ?p" "names p' = names ?p" "reads ctx' = reads ?c @ [1]"
    by blast
  have "start unreadable_world 0 (fortran_parser [9], new_session) = start_loop unreadable_world (?p, ?c)"
    unfolding start_def
    by (subst start_loop.simps) (use s1(1) in \<open>auto simp add: fortran_parser_def split: prod.splits sum.splits\<close>)
  with res s1 r show ?thesis
    by simp
qed

section \<open>Invariants of the traversal\<close>

lemma start_loop_rule:
  assumes ret: "start_loop w ps = Some res" and init: "I ps"
    and pop: "\<And>ps nd rest. I ps \<Longrightarrow> waiting (fst ps) = nd # rest
               \<Longrightarrow> I ((fst ps)\<lparr>waiting := rest\<rparr>, snd ps)"
    and step: "\<And>ps nd u ps'. I ps \<Longrightarrow> iter w nd ps = (Inr u, ps') \<Longrightarrow> I ps'"
    and fail: "\<And>ps nd e ps'. I ps \<Longrightarrow> iter w nd ps = (Inl e, ps') \<Longrightarrow> Q ps'"
    and stop: "\<And>ps. I ps \<Longrightarrow> waiting (fst ps) = [] \<Longrightarrow> Q ps"
  shows "Q (snd res)"
proof -
  have "w = w \<longrightarrow> I ps \<longrightarrow> Q (snd res)"
  proof (rule start_loop.raw_induct [where P = "\<lambda>w' ps res. w' = w \<longrightarrow> I ps \<longrightarrow> Q (snd res)", OF _ ret])
    fix f w' ps res
    assume IH: "\<And>w' ps res. f w' ps = Some res \<Longrightarrow> w' = w \<longrightarrow> I ps \<longrightarrow> Q (snd res)"
      and eq: "(case waiting (fst ps) of
                  [] \<Rightarrow> Some (Inr (), ps)
                | nd # rest \<Rightarrow>
                    (case iter w' nd ((fst ps)\<lparr>waiting := rest\<rparr>, snd ps) of
                       (Inl e, ps') \<Rightarrow> Some (Inl e, ps')
                     | (Inr u, ps') \<Rightarrow> f w' ps')) = Some res"
    show "w' = w \<longrightarrow> I ps \<longrightarrow> Q (snd res)"
    proof (intro impI)
      assume w': "w' = w" and I: "I ps"
      show "Q (snd res)"
      proof (cases "waiting (fst ps)")
        case Nil
        with eq have "res = (Inr (), ps)" by simp
        with stop [OF I Nil] show ?thesis by simp
      next
        case (Cons nd rest)
        let ?q = "((fst ps)\<lparr>waiting := rest\<rparr>, snd ps)"
        have Iq: "I ?q" using I Cons by (rule pop)
        obtain r ps' where it: "iter w nd ?q = (r, ps')" by (cases "iter w nd ?q")
        show ?thesis
        proof (cases r)
          case (Inl e)
          with eq Cons it w' have "res = (Inl e, ps')" by simp
          with fail [OF Iq it [unfolded Inl]] show ?thesis by simp
        next
          case (Inr u)
          with eq Cons it w' have "f w ps' = Some res" by simp
          with IH step [OF Iq it [unfolded Inr]] show ?thesis by blast
        qed
      qed
    qed
  qed
  with init show ?thesis by blast
qed

subsection \<open>No name twice\<close>

lemma add_name_distinct: "distinct (names p) \<Longrightarrow> distinct (names (add_name x p))"
  by (simp add: add_name_def)

lemma tryfind_header_names: "distinct (names p) \<Longrightarrow> distinct (names (fst (tryfind_header w f (p, ctx))))"
  by (auto simp: tryfind_header_def add_name_def Let_def split: prod.splits option.splits)

lemma iter_incs_names:
  "distinct (names p) \<Longrightarrow> distinct (names (fst (iter_incs w xs (p, ctx))))"
proof (induction xs arbitrary: p ctx)
  case Nil
  then show ?case by simp
next
  case (Cons x xs)
  let ?t = "tryfind_header w x (p\<lparr>seen := insert (SeenName x) (seen p)\<rparr>, ctx)"
  have "distinct (names (fst ?t))"
    using Cons.prems by (intro tryfind_header_names) simp
  then have "distinct (names (fst (iter_incs w xs (fst ?t, snd ?t))))"
    by (rule Cons.IH)
  with Cons show ?case by simp
qed

lemma iter_uses_names: "distinct (names p) \<Longrightarrow> distinct (names (iter_uses xs p))"
  by (induction xs arbitrary: p) (simp_all add: add_name_distinct)

lemma iter_mods_names: "distinct (names p) \<Longrightarrow> distinct (names (iter_mods xs p))"
  by (induction xs arbitrary: p) (simp_all add: add_name_distinct)

lemma iter_names:
  assumes "distinct (names p)" and "iter w nd (p, ctx) = (r, p', ctx')"
  shows "distinct (names p')"
proof (cases "SeenNode nd \<in> seen p")
  case True
  with assms show ?thesis by (simp add: iter_def)
next
  case False
  obtain fr c1 where fd: "find_deps w nd ctx = (fr, c1)" by (cases "find_deps w nd ctx")
  show ?thesis
  proof (cases fr)
    case (Inl e)
    with assms False fd show ?thesis by (auto simp: iter_def)
  next
    case (Inr deps)
    let ?q = "p\<lparr>extracted := extracted p @ [nd], seen := insert (SeenNode nd) (seen p)\<rparr>"
    have "distinct (names (fst (iter_incs w (incs deps) (?q, c1))))"
      using assms(1) by (intro iter_incs_names) simp
    then have "distinct (names (iter_mods (mods deps) (iter_uses (uses deps) (fst (iter_incs w (incs deps) (?q, c1))))))"
      by (intro iter_mods_names iter_uses_names)
    with assms(2) False fd Inr show ?thesis
      by (auto simp: iter_def split: prod.splits)
  qed
qed

lemma start_names:
  assumes "start w root (p, ctx) = Some (r, p', ctx')" and "distinct (names p)"
  shows "distinct (names p')"
proof -
  have "distinct (names (fst (snd (r, p', ctx'))))"
    using assms(1) [unfolded start_def]
  proof (rule start_loop_rule [where I = "\<lambda>ps. distinct (names (fst ps))"
          and Q = "\<lambda>ps. distinct (names (fst ps))"])
    show "distinct (names (fst (fst (p, ctx)\<lparr>waiting := [root]\<rparr>, snd (p, ctx))))"
      using assms(2) by simp
  qed (auto dest: iter_names)
  then show ?thesis by simp
qed

subsection \<open>What one file adds\<close>

lemma map_filter_snoc:
  "List.map_filter f (xs @ [x]) = List.map_filter f xs @ (case f x of None \<Rightarrow> [] | Some y \<Rightarrow> [y])"
  by (simp add: List.map_filter_def split: option.splits)

lemma iter_incs_fields:
  assumes "iter_incs w xs (p, ctx) = (p', ctx')"
  shows "extracted p' = extracted p \<and> incpaths p' = incpaths p \<and> seen_nodes p' = seen_nodes p \<and>
         seen p \<subseteq> seen p' \<and> set (names p') \<subseteq> set (names p) \<union> set xs"
  using assms
proof (induction xs arbitrary: p ctx)
  case Nil
  then show ?case by simp
next
  case (Cons x xs)
  show ?case
  proof (cases "SeenName x \<in> seen p")
    case True
    with Cons show ?thesis by auto
  next
    case False
    let ?q = "p\<lparr>seen := insert (SeenName x) (seen p)\<rparr>"
    obtain p1 c1 where t: "tryfind_header w x (?q, ctx) = (p1, c1)"
      by (cases "tryfind_header w x (?q, ctx)")
    from tryfind_header_fields [OF t]
    have f1: "extracted p1 = extracted p" "incpaths p1 = incpaths p" "seen p1 = insert (SeenName x) (seen p)"
      by simp_all
    have n1: "set (names p1) \<subseteq> set (names p) \<union> {x}"
      using t by (auto simp: tryfind_header_def add_name_def Let_def split: prod.splits option.splits if_splits)
    from Cons.prems False t have "iter_incs w xs (p1, c1) = (p', ctx')" by simp
    from Cons.IH [OF this] f1 n1 show ?thesis
      by (auto simp: seen_nodes_def)
  qed
qed

lemma iter_incs_sched:
  assumes "iter_incs w xs (p, ctx) = (p', ctx')"
    and "distinct (scheduled p)" and "set (scheduled p) \<subseteq> seen_names p"
  shows "distinct (scheduled p') \<and> set (scheduled p') \<subseteq> seen_names p'"
  using assms
proof (induction xs arbitrary: p ctx)
  case Nil
  then show ?case by simp
next
  case (Cons x xs)
  show ?case
  proof (cases "SeenName x \<in> seen p")
    case True
    with Cons show ?thesis by auto
  next
    case False
    let ?q = "p\<lparr>seen := insert (SeenName x) (seen p)\<rparr>"
    obtain p1 c1 where t: "tryfind_header w x (?q, ctx) = (p1, c1)"
      by (cases "tryfind_header w x (?q, ctx)")
    from tryfind_header_fields [OF t]
    have f1: "scheduled p1 = scheduled p @ [x]" "seen p1 = insert (SeenName x) (seen p)"
      by simp_all
    from False Cons.prems(3) have "x \<notin> set (scheduled p)"
      by (auto simp: seen_names_def)
    with Cons.prems(2,3) f1 have "distinct (scheduled p1)" "set (scheduled p1) \<subseteq> seen_names p1"
      by (auto simp: seen_names_def)
    moreover from Cons.prems(1) False t have "iter_incs w xs (p1, c1) = (p', ctx')" by simp
    ultimately show ?thesis by (intro Cons.IH)
  qed
qed

lemma iter_incs_res:
  assumes "iter_incs w xs (p, ctx) = (p', ctx')" and "res_inv w dirs (p, ctx)"
  shows "res_inv w dirs (p', ctx')"
  using assms
proof (induction xs arbitrary: p ctx)
  case Nil
  then show ?case by simp
next
  case (Cons x xs)
  show ?case
  proof (cases "SeenName x \<in> seen p")
    case True
    with Cons show ?thesis by auto
  next
    case False
    let ?q = "p\<lparr>seen := insert (SeenName x) (seen p)\<rparr>"
    obtain p1 c1 where t: "tryfind_header w x (?q, ctx) = (p1, c1)"
      by (cases "tryfind_header w x (?q, ctx)")
    from Cons.prems(2) have co: "coherent w ctx" and ip: "incpaths ?q = dirs"
      and nd: "nodes ?q = List.map_filter (first_match w dirs) (scheduled ?q)"
      by (simp_all add: res_inv_def)
    from tryfind_header_coherent(1,3) [OF co t] tryfind_header_fields(3,4) [OF t] ip nd
    have "res_inv w dirs (p1, c1)"
      by (auto simp: res_inv_def map_filter_snoc split: option.splits)
    moreover from Cons.prems(1) False t have "iter_incs w xs (p1, c1) = (p', ctx')" by simp
    ultimately show ?thesis by (intro Cons.IH)
  qed
qed

lemma iter_uses_fields:
  "seen (iter_uses xs p) = seen p \<and> nodes (iter_uses xs p) = nodes p \<and>
   waiting (iter_uses xs p) = waiting p \<and> incpaths (iter_uses xs p) = incpaths p \<and>
   extracted (iter_uses xs p) = extracted p \<and> scheduled (iter_uses xs p) = scheduled p \<and>
   set (names (iter_uses xs p)) = set (names p) \<union> symbolic_name UsedModule ` set xs"
  by (induction xs arbitrary: p) (auto simp: add_name_def)

lemma iter_mods_fields:
  "seen (iter_mods xs p) = seen p \<and> nodes (iter_mods xs p) = nodes p \<and>
   waiting (iter_mods xs p) = waiting p \<and> incpaths (iter_mods xs p) = incpaths p \<and>
   extracted (iter_mods xs p) = extracted p \<and> scheduled (iter_mods xs p) = scheduled p \<and>
   set (names (iter_mods xs p)) = set (names p) \<union> symbolic_name ProvidedModule ` set xs"
  by (induction xs arbitrary: p) (auto simp: add_name_def)

text \<open>The three shapes of a call of \<open>iter\<close>.\<close>

lemma iter_cases:
  assumes "iter w nd (p, ctx) = (r, p', ctx')"
  obtains (skipped) "SeenNode nd \<in> seen p" and "r = Inr ()" and "p' = p" and "ctx' = ctx"
  | (failed) e where "SeenNode nd \<notin> seen p" and "find_deps w nd ctx = (Inl e, ctx')" and "r = Inl e"
      and "p' = p\<lparr>extracted := extracted p @ [nd]\<rparr>"
  | (scanned) deps c1 p1 where "SeenNode nd \<notin> seen p" and "find_deps w nd ctx = (Inr deps, c1)"
      and "r = Inr ()"
      and "iter_incs w (incs deps)
         (p\<lparr>extracted := extracted p @ [nd], seen := insert (SeenNode nd) (seen p)\<rparr>, c1) = (p1, ctx')"
      and "p' = iter_mods (mods deps) (iter_uses (uses deps) p1)"
proof (cases "SeenNode nd \<in> seen p")
  case True
  with assms show ?thesis by (intro skipped) (auto simp: iter_def)
next
  case False
  obtain fr c1 where fd: "find_deps w nd ctx = (fr, c1)" by (cases "find_deps w nd ctx")
  show ?thesis
  proof (cases fr)
    case (Inl e)
    with assms False fd show ?thesis by (intro failed [of e]) (auto simp: iter_def)
  next
    case (Inr deps)
    let ?q = "p\<lparr>extracted := extracted p @ [nd], seen := insert (SeenNode nd) (seen p)\<rparr>"
    obtain p1 c2 where ii: "iter_incs w (incs deps) (?q, c1) = (p1, c2)"
      by (cases "iter_incs w (incs deps) (?q, c1)")
    with assms False fd Inr show ?thesis
      by (intro scanned [of deps c1 p1]) (auto simp: iter_def)
  qed
qed

lemma iter_sched:
  assumes "iter w nd (p, ctx) = (r, p', ctx')" and "sched_inv p"
  shows "distinct (extracted p') \<and> distinct (scheduled p') \<and> (r = Inr () \<longrightarrow> sched_inv p')"
  using assms(1)
proof (cases rule: iter_cases)
  case skipped
  with assms(2) show ?thesis by (simp add: sched_inv_def)
next
  case (failed e)
  with assms(2) show ?thesis by (auto simp: sched_inv_def seen_nodes_def)
next
  case (scanned deps c1 p1)
  let ?q = "p\<lparr>extracted := extracted p @ [nd], seen := insert (SeenNode nd) (seen p)\<rparr>"
  from assms(2) have "distinct (scheduled ?q)" "set (scheduled ?q) \<subseteq> seen_names ?q"
    by (auto simp: sched_inv_def seen_names_def)
  with iter_incs_sched [OF scanned(4)]
  have s: "distinct (scheduled p1)" "set (scheduled p1) \<subseteq> seen_names p1" by simp_all
  from iter_incs_fields [OF scanned(4)]
  have e: "extracted p1 = extracted p @ [nd]" "seen_nodes p1 = insert nd (seen_nodes p)"
    by (auto simp: seen_nodes_def)
  from assms(2) scanned(1) have "distinct (extracted p @ [nd])" "set (extracted p @ [nd]) \<subseteq> insert nd (seen_nodes p)"
    by (auto simp: sched_inv_def seen_nodes_def)
  with s e scanned(5) iter_uses_fields [of "uses deps" p1]
    iter_mods_fields [of "mods deps" "iter_uses (uses deps) p1"]
  show ?thesis
    by (simp add: sched_inv_def seen_nodes_def seen_names_def)
qed

lemma iter_res:
  assumes "iter w nd (p, ctx) = (r, p', ctx')" and "res_inv w dirs (p, ctx)"
  shows "res_inv w dirs (p', ctx')"
  using assms(1)
proof (cases rule: iter_cases)
  case skipped
  with assms(2) show ?thesis by simp
next
  case (failed e)
  from assms(2) have "coherent w ctx" by (simp add: res_inv_def)
  from find_deps_coherent(2) [OF this, of nd] failed(2) have "coherent w ctx'" by simp
  with assms(2) failed(4) show ?thesis by (simp add: res_inv_def)
next
  case (scanned deps c1 p1)
  let ?q = "p\<lparr>extracted := extracted p @ [nd], seen := insert (SeenNode nd) (seen p)\<rparr>"
  from assms(2) have "coherent w ctx" by (simp add: res_inv_def)
  from find_deps_coherent(2) [OF this, of nd] scanned(2) have "coherent w c1" by simp
  with assms(2) have "res_inv w dirs (?q, c1)" by (simp add: res_inv_def)
  with scanned(4) have "res_inv w dirs (p1, ctx')" by (rule iter_incs_res)
  with scanned(5) iter_uses_fields [of "uses deps" p1]
    iter_mods_fields [of "mods deps" "iter_uses (uses deps) p1"]
  show ?thesis by (simp add: res_inv_def)
qed

lemma iter_names_origin:
  assumes "iter w nd (p, ctx) = (r, p', ctx')" and "SeenNode nd \<notin> seen p"
    and "fst (find_deps w nd ctx) = Inr deps"
  shows "set (names p') \<subseteq> set (names p) \<union> symbolic_name UnresolvedInclude ` set (incs deps) \<union>
           symbolic_name UsedModule ` set (uses deps) \<union> symbolic_name ProvidedModule ` set (mods deps)"
  using assms(1)
proof (cases rule: iter_cases)
  case skipped
  with assms(2) show ?thesis by simp
next
  case (failed e)
  with assms(3) show ?thesis by simp
next
  case (scanned deps' c1 p1)
  with assms(3) have d: "deps' = deps" by simp
  have "symbolic_name UnresolvedInclude ` set (incs deps) = set (incs deps)"
    by (auto simp: image_iff)
  with iter_incs_fields [OF scanned(4)] scanned(5) d iter_uses_fields [of "uses deps" p1]
    iter_mods_fields [of "mods deps" "iter_uses (uses deps) p1"]
  show ?thesis by auto
qed

subsection \<open>The whole traversal\<close>

lemma sched_inv_new: "sched_inv ((fortran_parser dirs)\<lparr>waiting := ws\<rparr>)"
  by (simp add: sched_inv_def fortran_parser_def)

lemma res_inv_new: "coherent w ctx \<Longrightarrow> res_inv w dirs ((fortran_parser dirs)\<lparr>waiting := ws\<rparr>, ctx)"
  by (simp add: res_inv_def fortran_parser_def List.map_filter_def)

lemma start_sched:
  assumes "start w root (fortran_parser dirs, ctx) = Some (r, p, ctx')"
  shows "distinct (extracted p) \<and> distinct (scheduled p)"
proof -
  have "distinct (extracted (fst (snd (r, p, ctx')))) \<and> distinct (scheduled (fst (snd (r, p, ctx'))))"
    using assms [unfolded start_def]
  proof (rule start_loop_rule [where I = "\<lambda>ps. sched_inv (fst ps)"
          and Q = "\<lambda>ps. distinct (extracted (fst ps)) \<and> distinct (scheduled (fst ps))"])
    show "sched_inv (fst (fst (fortran_parser dirs, ctx)\<lparr>waiting := [root]\<rparr>, snd (fortran_parser dirs, ctx)))"
      by (simp add: sched_inv_new)
  next
    fix ps nd rest
    assume "sched_inv (fst ps)"
    then show "sched_inv (fst ((fst ps)\<lparr>waiting := rest\<rparr>, snd ps))"
      by (simp add: sched_inv_def seen_nodes_def seen_names_def)
  next
    fix ps nd u ps'
    assume "sched_inv (fst ps)" "iter w nd ps = (Inr u, ps')"
    with iter_sched [of w nd "fst ps" "snd ps" "Inr u" "fst ps'" "snd ps'"]
    show "sched_inv (fst ps')" by simp
  next
    fix ps nd e ps'
    assume "sched_inv (fst ps)" "iter w nd ps = (Inl e, ps')"
    with iter_sched [of w nd "fst ps" "snd ps" "Inl e" "fst ps'" "snd ps'"]
    show "distinct (extracted (fst ps')) \<and> distinct (scheduled (fst ps'))" by simp
  next
    fix ps
    assume "sched_inv (fst ps)"
    then show "distinct (extracted (fst ps)) \<and> distinct (scheduled (fst ps))"
      by (simp add: sched_inv_def)
  qed
  then show ?thesis by simp
qed

lemma start_res:
  assumes "start w root (fortran_parser dirs, ctx) = Some (r, p, ctx')" and "coherent w ctx"
  shows "res_inv w dirs (p, ctx')"
proof -
  have "res_inv w dirs (snd (r, p, ctx'))"
    using assms(1) [unfolded start_def]
  proof (rule start_loop_rule [where I = "res_inv w dirs" and Q = "res_inv w dirs"])
    show "res_inv w dirs (fst (fortran_parser dirs, ctx)\<lparr>waiting := [root]\<rparr>, snd (fortran_parser dirs, ctx))"
      using assms(2) by (simp add: res_inv_new)
  next
    fix ps :: "parser \<times> session" and nd rest
    assume "res_inv w dirs ps"
    then show "res_inv w dirs ((fst ps)\<lparr>waiting := rest\<rparr>, snd ps)"
      by (simp add: res_inv_def)
  next
    fix ps nd u ps'
    assume "res_inv w dirs ps" "iter w nd ps = (Inr u, ps')"
    with iter_res [of w nd "fst ps" "snd ps" "Inr u" "fst ps'" "snd ps'" dirs]
    show "res_inv w dirs ps'" by simp
  next
    fix ps nd e ps'
    assume "res_inv w dirs ps" "iter w nd ps = (Inl e, ps')"
    with iter_res [of w nd "fst ps" "snd ps" "Inl e" "fst ps'" "snd ps'" dirs]
    show "res_inv w dirs ps'" by simp
  qed
  then show ?thesis by simp
qed

lemma distinct_map_filter_inj:
  assumes "distinct xs" and "inj_on f {x \<in> set xs. f x \<noteq> None}"
  shows "distinct (List.map_filter f xs)"
proof -
  have "inj_on (the \<circ> f) {x \<in> set xs. f x \<noteq> None}"
  proof (rule inj_onI)
    fix x y
    assume "x \<in> {x \<in> set xs. f x \<noteq> None}" "y \<in> {x \<in> set xs. f x \<noteq> None}" "(the \<circ> f) x = (the \<circ> f) y"
    then have "f x = f y" by auto
    with assms(2) \<open>x \<in> _\<close> \<open>y \<in> _\<close> show "x = y" by (auto dest: inj_onD)
  qed
  with assms(1) show ?thesis
    by (simp add: List.map_filter_def distinct_map)
qed

lemma symbolic_name_clash:
  "symbolic_name k1 x = symbolic_name k2 y \<Longrightarrow>
     (k1 = k2 \<and> x = y) \<or> (k1 = UnresolvedInclude \<and> k2 \<noteq> UnresolvedInclude) \<or>
     (k2 = UnresolvedInclude \<and> k1 \<noteq> UnresolvedInclude)"
  by (cases k1; cases k2) auto

lemma symbolic_name_same_literal: "k1 \<noteq> k2 \<Longrightarrow> symbolic_name k1 x \<noteq> symbolic_name k2 x"
  by (cases k1; cases k2) auto

text \<open>
  Claim C1, as amended. \<open>names\<close> never holds the same string twice. A used module is
  written \<open>USE@\<close> and its name, a provided module \<open>MOD@\<close> and its name, an unresolved
  include as the bare filename, and every name a file adds to \<open>names\<close> is one of these.
  Two names of different kinds with the same literal never coincide, nor do a used and a
  provided module; an unresolved include, having no tag, is the one kind that can
  coincide with a name of another kind.
\<close>

theorem names_tagged_and_distinct:
  assumes "start w root (fortran_parser dirs, ctx) = Some (r, p, ctx')"
  shows "distinct (names p) \<and>
    (\<forall>k1 k2 x. k1 \<noteq> k2 \<longrightarrow> symbolic_name k1 x \<noteq> symbolic_name k2 x) \<and>
    (\<forall>k1 k2 x y. symbolic_name k1 x = symbolic_name k2 y \<longrightarrow>
       (k1 = k2 \<and> x = y) \<or> (k1 = UnresolvedInclude \<and> k2 \<noteq> UnresolvedInclude) \<or>
       (k2 = UnresolvedInclude \<and> k1 \<noteq> UnresolvedInclude)) \<and>
    (\<forall>nd q c r' q' c' deps.
       iter w nd (q, c) = (r', q', c') \<and> SeenNode nd \<notin> seen q \<and> fst (find_deps w nd c) = Inr deps \<longrightarrow>
       set (names q') \<subseteq> set (names q) \<union> symbolic_name UnresolvedInclude ` set (incs deps) \<union>
         symbolic_name UsedModule ` set (uses deps) \<union> symbolic_name ProvidedModule ` set (mods deps))"
proof (intro conjI allI impI)
  have "distinct (names (fortran_parser dirs))"
    by (simp add: fortran_parser_def)
  with assms show "distinct (names p)"
    by (rule start_names)
next
  fix k1 k2 :: kind and x
  assume "k1 \<noteq> k2"
  then show "symbolic_name k1 x \<noteq> symbolic_name k2 x"
    by (rule symbolic_name_same_literal)
next
  fix k1 k2 x y
  assume "symbolic_name k1 x = symbolic_name k2 y"
  then show "(k1 = k2 \<and> x = y) \<or> (k1 = UnresolvedInclude \<and> k2 \<noteq> UnresolvedInclude) \<or>
       (k2 = UnresolvedInclude \<and> k1 \<noteq> UnresolvedInclude)"
    by (rule symbolic_name_clash)
next
  fix nd q c r' q' c' deps
  assume "iter w nd (q, c) = (r', q', c') \<and> SeenNode nd \<notin> seen q \<and> fst (find_deps w nd c) = Inr deps"
  then show "set (names q') \<subseteq> set (names q) \<union> symbolic_name UnresolvedInclude ` set (incs deps) \<union>
         symbolic_name UsedModule ` set (uses deps) \<union> symbolic_name ProvidedModule ` set (mods deps)"
    using iter_names_origin by blast
qed

text \<open>
  Claim C2, as amended. In a session that agrees with the files, \<open>nodes\<close> holds one entry
  for each scheduled filename that resolves, in scheduling order, and no filename is
  scheduled twice: a filename included twice, in one file or in two, yields its node
  once. \<open>nodes\<close> is free of duplicates whenever no two scheduled filenames resolve to
  the same node.
\<close>

theorem one_node_per_filename:
  assumes "start w root (fortran_parser dirs, ctx) = Some (r, p, ctx')" and "coherent w ctx"
  shows "nodes p = List.map_filter (first_match w dirs) (scheduled p) \<and> distinct (scheduled p) \<and>
         (inj_on (first_match w dirs) {f \<in> set (scheduled p). first_match w dirs f \<noteq> None}
            \<longrightarrow> distinct (nodes p))"
proof -
  from start_res [OF assms] have n: "nodes p = List.map_filter (first_match w dirs) (scheduled p)"
    by (simp add: res_inv_def)
  from start_sched [OF assms(1)] have d: "distinct (scheduled p)"
    by simp
  from n d distinct_map_filter_inj [OF d, of "first_match w dirs"] show ?thesis
    by simp
qed

lemmas eval_all = eval_walk eval_cache eval_rx eval_world

theorem names_tagged_and_distinct_witness:
  "\<exists>r p c. start alias_world 0 (fortran_parser [9], new_session) = Some (r, p, c) \<and>
     names p = [''MOD@m''] \<and> distinct (names p)"
proof -
  have "\<exists>r p c. start alias_world 0 (fortran_parser [9], new_session) = Some (r, p, c) \<and>
      names p = [''MOD@m'']"
    by (simp add: eval_all)
  then obtain r p c where s: "start alias_world 0 (fortran_parser [9], new_session) = Some (r, p, c)"
    and n: "names p = [''MOD@m'']" by blast
  from names_tagged_and_distinct [OF s] have "distinct (names p)" by blast
  with s n show ?thesis by blast
qed

text \<open>
  Claim C1 as stated fails: the include of a file called \<open>USE@m\<close>, found in no directory,
  and the use of the module \<open>m\<close> are two names of different kinds, and \<open>names\<close> holds the
  one string \<open>USE@m\<close> for both.
\<close>

theorem include_name_collides_with_module:
  "fst (find_deps collide_world 0 new_session) = Inr \<lparr>incs = [''USE@m''], uses = [''m''], mods = []\<rparr> \<and>
   map_option (names \<circ> fst \<circ> snd) (start collide_world 0 (fortran_parser [], new_session)) = Some [''USE@m''] \<and>
   symbolic_name UnresolvedInclude ''USE@m'' = symbolic_name UsedModule ''m''"
  by (simp add: eval_all)

theorem one_node_per_filename_witness:
  "coherent cycle_world new_session \<and>
   (\<exists>r p c. start cycle_world 0 (fortran_parser [9], new_session) = Some (r, p, c) \<and>
      scheduled p = [''b.f'', ''a.f''] \<and> nodes p = [1, 0] \<and>
      nodes p = List.map_filter (first_match cycle_world [9]) (scheduled p) \<and> distinct (nodes p))"
proof -
  have "\<exists>r p c. start cycle_world 0 (fortran_parser [9], new_session) = Some (r, p, c) \<and>
      scheduled p = [''b.f'', ''a.f''] \<and> nodes p = [1, 0]"
    by (simp add: eval_all)
  then obtain r p c where s: "start cycle_world 0 (fortran_parser [9], new_session) = Some (r, p, c)"
    and n: "scheduled p = [''b.f'', ''a.f'']" "nodes p = [1, 0]" by blast
  from one_node_per_filename [OF s coherent_new]
  have "nodes p = List.map_filter (first_match cycle_world [9]) (scheduled p)" by blast
  with s n coherent_new show ?thesis by auto
qed

text \<open>
  Claim C2 as stated fails: \<open>b.f\<close> and \<open>./b.f\<close> are two filenames that resolve to the same
  node, and \<open>nodes\<close> holds that node twice.
\<close>

theorem same_node_listed_twice:
  "fst (find_deps alias_world 0 new_session) = Inr \<lparr>incs = [''b.f'', ''./b.f''], uses = [], mods = []\<rparr> \<and>
   find_resource alias_world 9 ''b.f'' = Some 1 \<and> find_resource alias_world 9 ''./b.f'' = Some 1 \<and>
   map_option (nodes \<circ> fst \<circ> snd) (start alias_world 0 (fortran_parser [9], new_session)) = Some [1, 1]"
  by (simp add: eval_all)

section \<open>Termination\<close>

lemma tryfind_header_waiting:
  assumes "coherent w ctx" and "tryfind_header w f (p, ctx) = (p', ctx')"
    and "case first_match w (incpaths p) f of None \<Rightarrow> True | Some m \<Rightarrow> m \<in> N"
    and "set (waiting p) \<subseteq> N"
  shows "set (waiting p') \<subseteq> N \<and> length (waiting p') \<le> Suc (length (waiting p))"
  using tryfind_header_coherent(1) [OF assms(1,2)] assms(3,4)
  by (auto split: option.splits)

lemma iter_incs_progress:
  assumes "iter_incs w xs (p, ctx) = (p', ctx')" and "coherent w ctx" and "finite F" and "set xs \<subseteq> F"
    and "\<forall>f \<in> set xs. case first_match w (incpaths p) f of None \<Rightarrow> True | Some m \<Rightarrow> m \<in> N"
    and "set (waiting p) \<subseteq> N"
  shows "coherent w ctx' \<and> set (waiting p') \<subseteq> N \<and>
         2 * card (F - seen_names p') + length (waiting p') \<le> 2 * card (F - seen_names p) + length (waiting p)"
  using assms(1,2,4,5,6)
proof (induction xs arbitrary: p ctx)
  case Nil
  then show ?case by simp
next
  case (Cons x xs)
  show ?case
  proof (cases "SeenName x \<in> seen p")
    case True
    with Cons.prems have "iter_incs w xs (p, ctx) = (p', ctx')" by simp
    from Cons.IH [OF this] Cons.prems show ?thesis by simp
  next
    case False
    let ?q = "p\<lparr>seen := insert (SeenName x) (seen p)\<rparr>"
    obtain p1 c1 where t: "tryfind_header w x (?q, ctx) = (p1, c1)"
      by (cases "tryfind_header w x (?q, ctx)")
    from Cons.prems(4) have cl: "case first_match w (incpaths ?q) x of None \<Rightarrow> True | Some m \<Rightarrow> m \<in> N"
      by simp
    from Cons.prems(5) have wq: "set (waiting ?q) \<subseteq> N" by simp
    note w1 = tryfind_header_waiting [OF Cons.prems(2) t cl wq]
    note c1 = tryfind_header_coherent(3) [OF Cons.prems(2) t]
    note f1 = tryfind_header_fields [OF t]
    from Cons.prems(1) False t have run: "iter_incs w xs (p1, c1) = (p', ctx')" by simp
    have "coherent w ctx' \<and> set (waiting p') \<subseteq> N \<and>
        2 * card (F - seen_names p') + length (waiting p') \<le> 2 * card (F - seen_names p1) + length (waiting p1)"
      using run c1 Cons.prems(3,4) w1 f1 by (intro Cons.IH) simp_all
    moreover have sn: "seen_names p1 = insert x (seen_names p)"
      using f1(1) by (auto simp: seen_names_def)
    moreover have "x \<in> F - seen_names p"
      using Cons.prems(3) False by (auto simp: seen_names_def)
    then have "card (F - insert x (seen_names p)) < card (F - seen_names p)"
      using assms(3) by (metis Diff_insert card_Diff1_less finite_Diff)
    ultimately show ?thesis
      using w1 by simp
  qed
qed

lemma work_left_pop:
  "waiting p = nd # rest \<Longrightarrow> work_left w N (p\<lparr>waiting := rest\<rparr>) < work_left w N p"
  by (simp add: work_left_def seen_nodes_def seen_names_def)

lemma finite_all_includes: "finite N \<Longrightarrow> finite (all_includes w N)"
  by (simp add: all_includes_def)

lemma loop_terminates:
  assumes "finite N" and "closed_under w (incpaths p) N" and "coherent w ctx" and "set (waiting p) \<subseteq> N"
  shows "\<exists>res. start_loop w (p, ctx) = Some res"
  using assms(2,3,4)
proof (induction "work_left w N p" arbitrary: p ctx rule: less_induct)
  case less
  let ?F = "all_includes w N"
  show ?case
  proof (cases "waiting p")
    case Nil
    then show ?thesis by (subst start_loop.simps) simp
  next
    case (Cons nd rest)
    let ?q = "p\<lparr>waiting := rest\<rparr>"
    from Cons less.prems(3) have nd: "nd \<in> N" and rest: "set rest \<subseteq> N" by simp_all
    obtain r p' ctx' where it: "iter w nd (?q, ctx) = (r, p', ctx')"
      by (cases "iter w nd (?q, ctx)")
    have unfold: "start_loop w (p, ctx) =
        (case r of Inl e \<Rightarrow> Some (Inl e, p', ctx') | Inr u \<Rightarrow> start_loop w (p', ctx'))"
      using Cons it by (subst start_loop.simps) (simp split: sum.splits)
    from it show ?thesis
    proof (cases rule: iter_cases)
      case skipped
      have "work_left w N p' < work_left w N p"
        using skipped(3) Cons by (simp add: work_left_pop)
      moreover have "closed_under w (incpaths p') N" "coherent w ctx'" "set (waiting p') \<subseteq> N"
        using skipped less.prems rest by simp_all
      ultimately have "\<exists>res. start_loop w (p', ctx') = Some res"
        by (rule less.hyps)
      with unfold skipped(2) show ?thesis by simp
    next
      case (failed e)
      with unfold show ?thesis by simp
    next
      case (scanned deps c1 p1)
      let ?q1 = "?q\<lparr>extracted := extracted ?q @ [nd], seen := insert (SeenNode nd) (seen ?q)\<rparr>"
      from find_deps_coherent [OF less.prems(2), of nd] scanned(2)
      have c1: "coherent w c1"
        and rd: "Inr deps = (case read w nd of None \<Rightarrow> Inl IOError | Some body \<Rightarrow> Inr (get_deps body))"
        by simp_all
      from rd have inc: "incs deps = includes_of w nd"
        by (auto simp: includes_of_def get_deps_def split: option.splits)
      with nd have sub: "set (incs deps) \<subseteq> ?F"
        by (auto simp: all_includes_def)
      from less.prems(1) nd inc
      have cl: "\<forall>f \<in> set (incs deps). case first_match w (incpaths ?q1) f of None \<Rightarrow> True | Some m \<Rightarrow> m \<in> N"
        by (auto simp: closed_under_def)
      have wq: "set (waiting ?q1) \<subseteq> N" using rest by simp
      from iter_incs_progress [OF scanned(4) c1 finite_all_includes [OF assms(1)] sub cl wq]
      have c': "coherent w ctx'" and w1: "set (waiting p1) \<subseteq> N"
        and le: "2 * card (?F - seen_names p1) + length (waiting p1)
                  \<le> 2 * card (?F - seen_names ?q1) + length (waiting ?q1)"
        by simp_all
      from iter_incs_fields [OF scanned(4)]
      have f1: "incpaths p1 = incpaths p" "seen_nodes p1 = insert nd (seen_nodes p)"
        by (auto simp: seen_nodes_def)
      note u = iter_uses_fields [of "uses deps" p1]
      note m = iter_mods_fields [of "mods deps" "iter_uses (uses deps) p1"]
      have same: "seen_nodes p' = seen_nodes p1" "seen_names p' = seen_names p1"
        "waiting p' = waiting p1" "incpaths p' = incpaths p1"
        using scanned(5) u m by (simp_all add: seen_nodes_def seen_names_def)
      have "nd \<in> N - seen_nodes p"
        using nd scanned(1) by (simp add: seen_nodes_def)
      then have "card (N - insert nd (seen_nodes p)) < card (N - seen_nodes p)"
        using assms(1) by (metis Diff_insert card_Diff1_less finite_Diff)
      moreover have "seen_names ?q1 = seen_names p"
        by (auto simp: seen_names_def)
      ultimately have "work_left w N p' < work_left w N p"
        using le same f1 Cons by (simp add: work_left_def)
      moreover have "closed_under w (incpaths p') N" "set (waiting p') \<subseteq> N"
        using same f1 w1 less.prems(1) by simp_all
      ultimately have "\<exists>res. start_loop w (p', ctx') = Some res"
        using c' by (intro less.hyps)
      with unfold scanned(3) show ?thesis by simp
    qed
  qed
qed

text \<open>
  Claim C6. Over a finite set of nodes that holds the root and every node an include
  resolves to, and in a session that agrees with the files, the traversal returns; no
  node was handed to dependency extraction twice and no filename was scheduled for
  resolution twice.
\<close>

theorem traversal_terminates:
  assumes "finite N" and "root \<in> N" and "closed_under w dirs N" and "coherent w ctx"
  shows "\<exists>r p ctx'. start w root (fortran_parser dirs, ctx) = Some (r, p, ctx') \<and>
           distinct (extracted p) \<and> distinct (scheduled p)"
proof -
  have "\<exists>res. start_loop w ((fortran_parser dirs)\<lparr>waiting := [root]\<rparr>, ctx) = Some res"
    using assms by (intro loop_terminates [of N]) (simp_all add: fortran_parser_def)
  then obtain r p ctx' where s: "start w root (fortran_parser dirs, ctx) = Some (r, p, ctx')"
    by (auto simp: start_def)
  from start_sched [OF s] s show ?thesis by blast
qed

theorem traversal_terminates_witness:
  "finite {0, 1 :: nat} \<and> 0 \<in> {0, 1 :: nat} \<and> closed_under cycle_world [9] {0, 1} \<and>
   coherent cycle_world new_session \<and>
   (\<exists>r p c. start cycle_world 0 (fortran_parser [9], new_session) = Some (r, p, c) \<and>
      extracted p = [0, 1] \<and> distinct (extracted p) \<and> distinct (scheduled p))"
proof -
  have f: "finite {0, 1 :: nat}" and i: "0 \<in> {0, 1 :: nat}" by simp_all
  have c: "closed_under cycle_world [9] {0, 1}"
    by (simp add: closed_under_def includes_of_def eval_rx cycle_world_def)
  from traversal_terminates [OF f i c coherent_new]
  obtain r p c' where s: "start cycle_world 0 (fortran_parser [9], new_session) = Some (r, p, c')"
    and d: "distinct (extracted p)" "distinct (scheduled p)" by blast
  have "map_option (extracted \<circ> fst \<circ> snd) (start cycle_world 0 (fortran_parser [9], new_session)) = Some [0, 1]"
    by (simp add: eval_all)
  with s have "extracted p = [0, 1]" by simp
  with s d f i c coherent_new show ?thesis by blast
qed

end
